theory Spec2Isabelle
  imports Main
begin

section \<open>The node store\<close>

text \<open>
  A \<open>TreeNode<T>\<close> is a mutable object with the fields \<open>model\<close>, \<open>parent\<close>,
  \<open>_children\<close> and \<open>_index\<close>. Nodes refer to each other by reference, and several
  operations depend on which references alias, so the objects live in an explicit store:
  a list of node records, a reference being the position of the object in the list.
  \<open>new TreeNode(model)\<close> appends a record; nothing is ever freed.  A reference held by
  TypeScript code always designates a live object, so every operation below is meant for
  references smaller than the length of the store (\<open>refs_ok\<close> states it for the
  references stored inside the nodes).
\<close>

record 'a node =
  model :: 'a
  parent :: "nat option"
  children :: "nat list"
  index :: nat

type_synonym 'a heap = "'a node list"

datatype error = RangeError

text \<open>\<open>new TreeNode<T>(model)\<close>: parent \<open>null\<close>, no children, \<open>_index = 0\<close>.\<close>

definition new_TreeNode :: "'a \<Rightarrow> 'a heap \<Rightarrow> nat \<times> 'a heap" where
  "new_TreeNode m h =
     (length h, h @ [\<lparr>model = m, parent = None, children = [], index = 0\<rparr>])"

text \<open>
  The loop \<open>for (let i = k; i < cs.length; i++) cs[i]._index = i\<close> that ends both
  \<open>add\<close> (with an explicit position) and \<open>drop\<close>. The array \<open>cs\<close> is not changed
  by the loop; only the \<open>_index\<close> fields of the objects it refers to are.
\<close>

definition set_index :: "nat list \<Rightarrow> nat \<Rightarrow> 'a heap \<Rightarrow> 'a heap" where
  "set_index cs i h = h[cs ! i := (h ! (cs ! i))\<lparr>index := i\<rparr>]"

definition reindex :: "nat list \<Rightarrow> nat \<Rightarrow> 'a heap \<Rightarrow> 'a heap" where
  "reindex cs k h = fold (set_index cs) [k..<length cs] h"

text \<open>
  \<open>add(child, index?)\<close>. The optional position is a JavaScript number; it is modelled
  as an optional integer (\<open>None\<close> for \<open>undefined\<close>). The first statement,
  \<open>child.parent = this\<close>, runs before the range check, and a thrown \<open>RangeError\<close>
  does not undo it: the result pairs the outcome with the store as the call leaves it.
\<close>

definition add :: "nat \<Rightarrow> nat \<Rightarrow> int option \<Rightarrow> 'a heap \<Rightarrow> (error + nat) \<times> 'a heap" where
  "add this child idx h =
     (let h1 = h[child := (h ! child)\<lparr>parent := Some this\<rparr>] in
      case idx of
        None \<Rightarrow>
          let h2 = h1[child := (h1 ! child)\<lparr>index := length (children (h1 ! this))\<rparr>];
              h3 = h2[this := (h2 ! this)\<lparr>children := children (h2 ! this) @ [child]\<rparr>]
          in (Inr child, h3)
      | Some k \<Rightarrow>
          if k < 0 \<or> k > int (length (children (h1 ! this))) then (Inl RangeError, h1)
          else
            let cs = take (nat k) (children (h1 ! this)) @ [child]
                       @ drop (nat k) (children (h1 ! this));
                h2 = h1[this := (h1 ! this)\<lparr>children := cs\<rparr>]
            in (Inr child, reindex cs (nat k) h2))"

text \<open>\<open>addModel(model, index?)\<close>.\<close>

definition addModel :: "nat \<Rightarrow> 'a \<Rightarrow> int option \<Rightarrow> 'a heap \<Rightarrow> (error + nat) \<times> 'a heap" where
  "addModel this m idx h = (case new_TreeNode m h of (c, h1) \<Rightarrow> add this c idx h1)"

text \<open>\<open>swap(i, j)\<close>: both positions are checked before anything is written.\<close>

definition swap :: "nat \<Rightarrow> int \<Rightarrow> int \<Rightarrow> 'a heap \<Rightarrow> (error + unit) \<times> 'a heap" where
  "swap this i j h =
     (let cs = children (h ! this) in
      if i < 0 \<or> j < 0 \<or> i \<ge> int (length cs) \<or> j \<ge> int (length cs)
      then (Inl RangeError, h)
      else if i = j then (Inr (), h)
      else
        let temp = cs ! nat i;
            cs1 = cs[nat i := cs ! nat j];
            cs2 = cs1[nat j := temp];
            h1 = h[this := (h ! this)\<lparr>children := cs2\<rparr>];
            h2 = set_index cs2 (nat i) h1;
            h3 = set_index cs2 (nat j) h2
        in (Inr (), h3))"

text \<open>
  \<open>drop()\<close>: nothing happens on a root; otherwise \<open>splice(idx, 1)\<close> on the parent's
  array at the cached position, the re-indexing loop, and the reset of the node's own
  \<open>parent\<close> and \<open>_index\<close>. \<open>splice\<close> at a position beyond the end removes nothing,
  as \<open>take\<close> and \<open>drop\<close> do.
\<close>

definition isRoot :: "'a heap \<Rightarrow> nat \<Rightarrow> bool" where
  "isRoot h this = (parent (h ! this) = None)"

definition drop_node :: "nat \<Rightarrow> 'a heap \<Rightarrow> nat \<times> 'a heap" where
  "drop_node this h =
     (case parent (h ! this) of
        None \<Rightarrow> (this, h)
      | Some p \<Rightarrow>
          let idx = index (h ! this);
              cs = take idx (children (h ! p)) @ drop (Suc idx) (children (h ! p));
              h1 = h[p := (h ! p)\<lparr>children := cs\<rparr>];
              h2 = reindex cs idx h1;
              h3 = h2[this := (h2 ! this)\<lparr>parent := None, index := 0\<rparr>]
          in (this, h3))"

section \<open>Consistency of a store\<close>

text \<open>
  \<open>index_invariant\<close> is the invariant of the data model: a node with a parent sits in
  the parent's array at its cached position. \<open>children_owned\<close> is the converse: every
  entry of an array has that node as parent and that position as cached index.
\<close>

definition refs_ok :: "'a heap \<Rightarrow> bool" where
  "refs_ok h = (\<forall>n<length h.
       (case parent (h ! n) of None \<Rightarrow> True | Some p \<Rightarrow> p < length h) \<and>
       (\<forall>c\<in>set (children (h ! n)). c < length h))"

definition index_invariant :: "'a heap \<Rightarrow> bool" where
  "index_invariant h = (\<forall>n<length h.
       case parent (h ! n) of
         None \<Rightarrow> True
       | Some p \<Rightarrow> index (h ! n) < length (children (h ! p)) \<and> children (h ! p) ! index (h ! n) = n)"

definition children_owned :: "'a heap \<Rightarrow> bool" where
  "children_owned h = (\<forall>p<length h. \<forall>i<length (children (h ! p)).
       parent (h ! (children (h ! p) ! i)) = Some p \<and> index (h ! (children (h ! p) ! i)) = i)"

definition wf :: "'a heap \<Rightarrow> bool" where
  "wf h = (refs_ok h \<and> index_invariant h \<and> children_owned h)"

section \<open>Path addressing\<close>

text \<open>
  \<open>indices\<close>: the loop \<open>while (node.parent) { indices.push(node.index); node = node.parent }\<close>
  followed by \<open>reverse()\<close>. On a store whose parent links form a cycle the loop never
  ends; the model then has no result (\<open>None\<close>).
\<close>

partial_function (option) indices_loop :: "'a heap \<Rightarrow> nat \<Rightarrow> nat list \<Rightarrow> nat list option" where
  "indices_loop h node acc =
     (case parent (h ! node) of
        None \<Rightarrow> Some acc
      | Some p \<Rightarrow> indices_loop h p (acc @ [index (h ! node)]))"

definition indices :: "'a heap \<Rightarrow> nat \<Rightarrow> nat list option" where
  "indices h this = map_option rev (indices_loop h this [])"

text \<open>
  Numbers are written in decimal when an array of numbers is joined: \<open>String(n)\<close> for an
  integer \<open>n\<close> (below \<open>10^21\<close> in absolute value, which sibling positions are).
\<close>

definition digit_char :: "nat \<Rightarrow> char" where
  "digit_char d = char_of (48 + d)"

fun digits_of :: "nat \<Rightarrow> nat list" where
  "digits_of n = (if n < 10 then [n] else digits_of (n div 10) @ [n mod 10])"

definition string_of_nat :: "nat \<Rightarrow> string" where
  "string_of_nat n = map digit_char (digits_of n)"

definition string_of_int :: "int \<Rightarrow> string" where
  "string_of_int i = (if i < 0 then CHR ''-'' # string_of_nat (nat (- i)) else string_of_nat (nat i))"

text \<open>\<open>parts.join(',')\<close> on the strings of the parts.\<close>

fun join :: "string list \<Rightarrow> string" where
  "join [] = []"
| "join [x] = x"
| "join (x # y # ys) = x @ CHR '','' # join (y # ys)"

text \<open>
  The loop of \<open>pathKey\<close> over the indices, with its two variables \<open>parts\<close> and
  \<open>zeroCount\<close>, and the flush after the loop.
\<close>

fun pathKey_loop :: "nat list \<Rightarrow> int list \<Rightarrow> nat \<Rightarrow> int list \<times> nat" where
  "pathKey_loop [] parts zeroCount = (parts, zeroCount)"
| "pathKey_loop (idx # rest) parts zeroCount =
     (if idx = 0 then pathKey_loop rest parts (zeroCount + 1)
      else if zeroCount > 0
        then pathKey_loop rest ((parts @ [int zeroCount]) @ [- int idx]) 0
        else pathKey_loop rest (parts @ [- int idx]) zeroCount)"

definition pathKey_of :: "nat list \<Rightarrow> string" where
  "pathKey_of is =
     (if length is = 0 then []
      else case pathKey_loop is [] 0 of (parts, zeroCount) \<Rightarrow>
        join (map string_of_int (if zeroCount > 0 then parts @ [int zeroCount] else parts)))"

definition pathKey :: "'a heap \<Rightarrow> nat \<Rightarrow> string option" where
  "pathKey h this = map_option pathKey_of (indices h this)"

text \<open>
  The encoding as the specification words it, for comparison with the loop: scanning from
  the left, a maximal run of zeros gives one token, its length; an index \<open>k\<close> other than
  zero gives the token \<open>-k\<close>; the tokens are joined with commas.
\<close>

function run_length_tokens :: "nat list \<Rightarrow> int list" where
  "run_length_tokens [] = []"
| "run_length_tokens (k # ks) =
     (if k = 0
      then int (length (takeWhile (\<lambda>i. i = 0) (k # ks))) # run_length_tokens (dropWhile (\<lambda>i. i = 0) ks)
      else - int k # run_length_tokens ks)"
  by pat_completeness auto
termination
  by (relation "measure length") (auto simp: length_dropWhile_le less_Suc_eq_le)

definition run_length_key :: "nat list \<Rightarrow> string" where
  "run_length_key is = join (map string_of_int (run_length_tokens is))"




text \<open>\<open>pathKey.split(',')\<close>: one more piece than there are commas.\<close>

fun split :: "string \<Rightarrow> string list" where
  "split [] = [[]]"
| "split (c # s) =
     (if c = CHR '','' then [] # split s
      else case split s of x # xs \<Rightarrow> (c # x) # xs | [] \<Rightarrow> [[c]])"






section \<open>The parseable description\<close>

text \<open>
  \<open>IParseable<T>\<close> is the plain object \<open>{ model, children }\<close>. \<open>parse\<close> recurses on it
  and appends each parsed child with \<open>add\<close>; \<open>toObject\<close> recurses on the nodes. A
  recursion over the nodes of a store has no structural bound (the store may hold a
  cycle), so these functions take fuel: one unit for each level of the descent, and no
  result (\<open>None\<close>) when it runs out.
\<close>

datatype 'a IParseable = Parseable 'a "'a IParseable list"

fun parse :: "'a IParseable \<Rightarrow> 'a heap \<Rightarrow> nat \<times> 'a heap" where
  "parse (Parseable m cs) h =
     (case new_TreeNode m h of (node, h1) \<Rightarrow>
        (node, fold (\<lambda>child h2. case parse child h2 of (c, h3) \<Rightarrow> snd (add node c None h3)) cs h1))"

fun toObject :: "nat \<Rightarrow> 'a heap \<Rightarrow> nat \<Rightarrow> 'a IParseable option" where
  "toObject 0 h this = None"
| "toObject (Suc fuel) h this =
     map_option (Parseable (model (h ! this))) (those (map (toObject fuel h) (children (h ! this))))"

text \<open>
  The nodes that \<open>toObject\<close> visits, as a tree of references: the same descent,
  keeping the node in place of its model.
\<close>

fun node_tree :: "nat \<Rightarrow> 'a heap \<Rightarrow> nat \<Rightarrow> nat IParseable option" where
  "node_tree 0 h this = None"
| "node_tree (Suc fuel) h this =
     map_option (Parseable this) (those (map (node_tree fuel h) (children (h ! this))))"

section \<open>Traversal and search\<close>

text \<open>
  A search callback is called once for each node visited and may change variables of its
  own (\<open>flatten\<close> and \<open>findAll\<close> push onto an array): it is a function from the node
  and that state to the truth value of what it returns and the new state. It does not
  change the tree.

  \<open>breadth\<close>: the queue is an array that only grows, \<open>head\<close> walks along it. One unit
  of fuel is one turn of the \<open>while\<close> loop.
\<close>

type_synonym 's SearchCallback = "nat \<Rightarrow> 's \<Rightarrow> bool \<times> 's"

fun breadth_loop :: "nat \<Rightarrow> 'a heap \<Rightarrow> 's SearchCallback \<Rightarrow> nat list \<Rightarrow> nat \<Rightarrow> 's
    \<Rightarrow> (nat option \<times> 's) option" where
  "breadth_loop 0 h callback queue head s = None"
| "breadth_loop (Suc fuel) h callback queue head s =
     (if head < length queue then
        let node = queue ! head in
        case callback node s of
          (True, s1) \<Rightarrow> Some (Some node, s1)
        | (False, s1) \<Rightarrow> breadth_loop fuel h callback (queue @ children (h ! node)) (Suc head) s1
      else Some (None, s))"

definition breadth :: "nat \<Rightarrow> 'a heap \<Rightarrow> 's SearchCallback \<Rightarrow> nat \<Rightarrow> 's \<Rightarrow> (nat option \<times> 's) option" where
  "breadth fuel h callback this s = breadth_loop fuel h callback [this] 0 s"

text \<open>
  \<open>pre\<close> and \<open>post\<close>: the function on a node and the \<open>for\<close> loop over its children,
  which returns at the first child whose search finds a node.
\<close>

fun pre :: "nat \<Rightarrow> 'a heap \<Rightarrow> 's SearchCallback \<Rightarrow> nat \<Rightarrow> 's \<Rightarrow> (nat option \<times> 's) option"
  and pre_children :: "nat \<Rightarrow> 'a heap \<Rightarrow> 's SearchCallback \<Rightarrow> nat list \<Rightarrow> 's
    \<Rightarrow> (nat option \<times> 's) option" where
  "pre 0 h callback this s = None"
| "pre (Suc fuel) h callback this s =
     (case callback this s of
        (True, s1) \<Rightarrow> Some (Some this, s1)
      | (False, s1) \<Rightarrow> pre_children fuel h callback (children (h ! this)) s1)"
| "pre_children fuel h callback [] s = Some (None, s)"
| "pre_children fuel h callback (c # cs) s =
     (case pre fuel h callback c s of
        None \<Rightarrow> None
      | Some (Some node, s1) \<Rightarrow> Some (Some node, s1)
      | Some (None, s1) \<Rightarrow> pre_children fuel h callback cs s1)"

fun post :: "nat \<Rightarrow> 'a heap \<Rightarrow> 's SearchCallback \<Rightarrow> nat \<Rightarrow> 's \<Rightarrow> (nat option \<times> 's) option"
  and post_children :: "nat \<Rightarrow> 'a heap \<Rightarrow> 's SearchCallback \<Rightarrow> nat list \<Rightarrow> 's
    \<Rightarrow> (nat option \<times> 's) option" where
  "post 0 h callback this s = None"
| "post (Suc fuel) h callback this s =
     (case post_children fuel h callback (children (h ! this)) s of
        None \<Rightarrow> None
      | Some (Some node, s1) \<Rightarrow> Some (Some node, s1)
      | Some (None, s1) \<Rightarrow>
          (case callback this s1 of
             (True, s2) \<Rightarrow> Some (Some this, s2)
           | (False, s2) \<Rightarrow> Some (None, s2)))"
| "post_children fuel h callback [] s = Some (None, s)"
| "post_children fuel h callback (c # cs) s =
     (case post fuel h callback c s of
        None \<Rightarrow> None
      | Some (Some node, s1) \<Rightarrow> Some (Some node, s1)
      | Some (None, s1) \<Rightarrow> post_children fuel h callback cs s1)"

datatype SearchStrategy = Pre | Post | Breadth

fun search :: "SearchStrategy \<Rightarrow> nat \<Rightarrow> 'a heap \<Rightarrow> 's SearchCallback \<Rightarrow> nat \<Rightarrow> 's
    \<Rightarrow> (nat option \<times> 's) option" where
  "search Pre = pre"
| "search Post = post"
| "search Breadth = breadth"

text \<open>
  \<open>find\<close>, \<open>findAll\<close> and \<open>flatten\<close>. The callbacks of the last two return
  \<open>undefined\<close>, which is not truthy: the search never stops early.
\<close>

definition find :: "nat \<Rightarrow> 'a heap \<Rightarrow> (nat \<Rightarrow> bool) \<Rightarrow> SearchStrategy \<Rightarrow> nat \<Rightarrow> nat option option" where
  "find fuel h predicate method this =
     map_option fst (search method fuel h (\<lambda>node s. (predicate node, s)) this ())"

definition findAll :: "nat \<Rightarrow> 'a heap \<Rightarrow> (nat \<Rightarrow> bool) \<Rightarrow> SearchStrategy \<Rightarrow> nat \<Rightarrow> nat list option" where
  "findAll fuel h predicate method this =
     map_option snd (search method fuel h
       (\<lambda>node results. (False, if predicate node then results @ [node] else results)) this [])"

definition flatten :: "nat \<Rightarrow> 'a heap \<Rightarrow> SearchStrategy \<Rightarrow> nat \<Rightarrow> nat list option" where
  "flatten fuel h method this =
     map_option snd (search method fuel h (\<lambda>node list. (False, list @ [node])) this [])"

section \<open>Transformation\<close>



text \<open>
  \<open>mapAsync\<close>. The callback receives the source node and the new parent node (or
  \<open>undefined\<close>), and its promise is awaited before the new node exists. The transforms of
  the children are started together and joined by \<open>Promise.all\<close>. The model runs them
  one after the other in array order: each of them writes only nodes it allocates itself
  and reads, of the new tree, only the parent node it is given, whose fields do not change
  until all children are done; so their interleaving does not show in the result, and
  \<open>Promise.all\<close> returns the new children in array order whatever the order of
  completion. Rejection of a promise is not modelled.
\<close>

type_synonym ('a, 'u) AsyncCallback = "'a heap \<Rightarrow> nat \<Rightarrow> 'u heap \<Rightarrow> nat option \<Rightarrow> 'u"

fun mapAsync :: "nat \<Rightarrow> ('a, 'u) AsyncCallback \<Rightarrow> 'a heap \<Rightarrow> nat \<Rightarrow> nat option \<Rightarrow> 'u heap
    \<Rightarrow> (nat \<times> 'u heap) option"
  and mapAsync_children :: "nat \<Rightarrow> ('a, 'u) AsyncCallback \<Rightarrow> 'a heap \<Rightarrow> nat \<Rightarrow> nat list \<Rightarrow> nat \<Rightarrow> 'u heap
    \<Rightarrow> (nat list \<times> 'u heap) option" where
  "mapAsync 0 callback h this par t = None"
| "mapAsync (Suc fuel) callback h this par t =
     (case new_TreeNode (callback h this t par) t of (node, t1) \<Rightarrow>
        (case mapAsync_children fuel callback h node (children (h ! this)) 0 t1 of
           None \<Rightarrow> None
         | Some (cs, t2) \<Rightarrow> Some (node, t2[node := (t2 ! node)\<lparr>children := cs\<rparr>])))"
| "mapAsync_children fuel callback h node [] i t = Some ([], t)"
| "mapAsync_children fuel callback h node (child # rest) i t =
     (case mapAsync fuel callback h child (Some node) t of
        None \<Rightarrow> None
      | Some (newChild, t1) \<Rightarrow>
          let t2 = t1[newChild := (t1 ! newChild)\<lparr>parent := Some node\<rparr>];
              t3 = t2[newChild := (t2 ! newChild)\<lparr>index := i\<rparr>]
          in (case mapAsync_children fuel callback h node rest (Suc i) t3 of
                None \<Rightarrow> None
              | Some (cs, t4) \<Rightarrow> Some (newChild # cs, t4)))"

text \<open>
  What the specification says of \<open>mapAsync\<close>, written on the tree of the original
  nodes: the new tree has the shape of the original one, and the payload of each new node
  is the value of the callback on the original node and on the new parent node as it is
  when the callback is called, which is a node that has its payload and no links yet
  (\<open>new TreeNode(payload)\<close>), or \<open>undefined\<close> at the top. \<open>node_callback g\<close> is the
  callback whose value depends on the original tree, the original node and that parent
  node: what a callback can reach from its two arguments at the call.
\<close>

definition new_node :: "'u \<Rightarrow> 'u node" where
  "new_node m = \<lparr>model = m, parent = None, children = [], index = 0\<rparr>"

definition node_callback :: "('a heap \<Rightarrow> nat \<Rightarrow> 'u node option \<Rightarrow> 'u) \<Rightarrow> ('a, 'u) AsyncCallback" where
  "node_callback g h node t par = g h node (map_option (\<lambda>p. t ! p) par)"

fun mapAsync_tree :: "('a heap \<Rightarrow> nat \<Rightarrow> 'u node option \<Rightarrow> 'u) \<Rightarrow> 'a heap \<Rightarrow> nat IParseable
    \<Rightarrow> 'u node option \<Rightarrow> 'u IParseable" where
  "mapAsync_tree g h (Parseable n cs) par =
     Parseable (g h n par) (map (\<lambda>c. mapAsync_tree g h c (Some (new_node (g h n par)))) cs)"

section \<open>The nested-array encoding\<close>

text \<open>
  \<open>NestedArray<T>\<close>: a bare value of \<open>T\<close> or an array. \<open>T\<close> is a type of scalars:
  \<open>Array.isArray\<close> is true of the arrays of the encoding only.
\<close>

datatype 'a NestedArray = Val 'a | Arr "'a NestedArray list"

fun isArray :: "'a NestedArray \<Rightarrow> bool" where
  "isArray (Arr xs) = True"
| "isArray (Val v) = False"

definition isLeaf :: "'a heap \<Rightarrow> nat \<Rightarrow> bool" where
  "isLeaf h this = (\<not> length (children (h ! this)) > 0)"

fun toNestedArray :: "nat \<Rightarrow> 'a heap \<Rightarrow> nat \<Rightarrow> 'a NestedArray option" where
  "toNestedArray 0 h this = None"
| "toNestedArray (Suc fuel) h this =
     (if isLeaf h this then Some (Val (model (h ! this)))
      else if length (children (h ! this)) = 1 then
        (case toNestedArray fuel h (children (h ! this) ! 0) of
           None \<Rightarrow> None
         | Some (Arr childResult) \<Rightarrow> Some (Arr (Val (model (h ! this)) # childResult))
         | Some (Val childResult) \<Rightarrow> Some (Arr [Val (model (h ! this)), Val childResult]))
      else if list_all (isLeaf h) (children (h ! this)) then
        Some (Arr [Val (model (h ! this)), Arr (map (\<lambda>c. Val (model (h ! c))) (children (h ! this)))])
      else
        map_option (\<lambda>rs. Arr (Val (model (h ! this)) # rs))
          (those (map (toNestedArray fuel h) (children (h ! this)))))"

text \<open>
  \<open>fromNestedArray\<close>. The equations follow the branches of the source in their order:
  a bare value; \<open>rest.length === 0\<close>; \<open>rest.length === 1 && Array.isArray(rest[0])\<close>,
  with or without an array inside; no array in \<open>rest\<close> (a chain); and the general case.
  An array that is empty, or whose first element is itself an array, has no value of
  \<open>T\<close> for the model of the node (the source would store \<open>undefined\<close> or the array):
  the result is \<open>None\<close>.
\<close>

fun values_of :: "'a NestedArray list \<Rightarrow> 'a list" where
  "values_of [] = []"
| "values_of (Val v # xs) = v # values_of xs"
| "values_of (Arr ys # xs) = values_of xs"

definition add_leaves :: "nat \<Rightarrow> 'a list \<Rightarrow> 'a heap \<Rightarrow> 'a heap" where
  "add_leaves node leaves h = fold (\<lambda>leaf h1. snd (addModel node leaf None h1)) leaves h"

fun add_chain :: "nat \<Rightarrow> 'a list \<Rightarrow> 'a heap \<Rightarrow> 'a heap" where
  "add_chain current [] h = h"
| "add_chain current (v # vs) h =
     (case addModel current v None h of
        (Inr c, h1) \<Rightarrow> add_chain c vs h1
      | (Inl e, h1) \<Rightarrow> h1)"

fun fromNestedArray :: "'a NestedArray \<Rightarrow> 'a heap \<Rightarrow> (nat \<times> 'a heap) option"
  and fromNestedArray_children :: "nat \<Rightarrow> 'a NestedArray list \<Rightarrow> 'a heap \<Rightarrow> 'a heap option" where
  "fromNestedArray (Val v) h = Some (new_TreeNode v h)"
| "fromNestedArray (Arr []) h = None"
| "fromNestedArray (Arr (Arr ys # rest)) h = None"
| "fromNestedArray (Arr [Val m]) h = Some (new_TreeNode m h)"
| "fromNestedArray (Arr [Val m, Arr inner]) h =
     (case new_TreeNode m h of (node, h1) \<Rightarrow>
        if \<not> list_ex isArray inner then Some (node, add_leaves node (values_of inner) h1)
        else (case fromNestedArray (Arr inner) h1 of
                None \<Rightarrow> None
              | Some (c, h2) \<Rightarrow> Some (node, snd (add node c None h2))))"
| "fromNestedArray (Arr (Val m # rest)) h =
     (case new_TreeNode m h of (node, h1) \<Rightarrow>
        if \<not> list_ex isArray rest then Some (node, add_chain node (values_of rest) h1)
        else map_option (Pair node) (fromNestedArray_children node rest h1))"
| "fromNestedArray_children node [] h = Some h"
| "fromNestedArray_children node (childResult # rest) h =
     (case fromNestedArray childResult h of
        None \<Rightarrow> None
      | Some (c, h1) \<Rightarrow> fromNestedArray_children node rest (snd (add node c None h1)))"

section \<open>Regions of a store\<close>

text \<open>
  \<open>clone\<close>, \<open>map\<close> and \<open>mapAsync\<close> only create nodes and link the nodes they
  created. The predicates below describe the part of a store from a position \<open>lo\<close>
  on that such a builder has filled: the old part is unchanged (\<open>extends\<close>); every array
  of the region holds nodes of the region, each with the array's node as parent and its
  position as index; every node of the region that is not one of the \<open>roots\<close> has a
  parent in the region whose array holds it at its index; and the roots are distinct
  nodes of the region with the parent \<open>par\<close> and the indices \<open>i0\<close>, \<open>i0 + 1\<close>, ...
\<close>

definition extends :: "'a heap \<Rightarrow> 'a heap \<Rightarrow> bool" where
  "extends t t' = (length t \<le> length t' \<and> (\<forall>n<length t. t' ! n = t ! n))"

definition region_children :: "nat \<Rightarrow> 'a heap \<Rightarrow> bool" where
  "region_children lo t = (\<forall>n. lo \<le> n \<and> n < length t \<longrightarrow>
     (\<forall>c\<in>set (children (t ! n)). lo \<le> c \<and> c < length t) \<and>
     (\<forall>k<length (children (t ! n)).
        parent (t ! (children (t ! n) ! k)) = Some n \<and> index (t ! (children (t ! n) ! k)) = k))"

definition region_parents :: "nat \<Rightarrow> 'a heap \<Rightarrow> nat list \<Rightarrow> bool" where
  "region_parents lo t roots = (\<forall>n. lo \<le> n \<and> n < length t \<and> n \<notin> set roots \<longrightarrow>
     (\<exists>p. parent (t ! n) = Some p \<and> lo \<le> p \<and> p < length t \<and>
          index (t ! n) < length (children (t ! p)) \<and> children (t ! p) ! index (t ! n) = n))"

definition region_roots :: "nat \<Rightarrow> 'a heap \<Rightarrow> nat list \<Rightarrow> nat option \<Rightarrow> nat \<Rightarrow> bool" where
  "region_roots lo t roots par i0 = (distinct roots \<and> (\<forall>r\<in>set roots. lo \<le> r \<and> r < length t) \<and>
     (\<forall>k<length roots. parent (t ! (roots ! k)) = par \<and> index (t ! (roots ! k)) = i0 + k))"

definition fresh :: "nat \<Rightarrow> 'a heap \<Rightarrow> nat list \<Rightarrow> nat option \<Rightarrow> nat \<Rightarrow> bool" where
  "fresh lo t roots par i0 =
     (region_children lo t \<and> region_parents lo t roots \<and> region_roots lo t roots par i0)"

text \<open>
  The two writes of \<open>add\<close> to the child, \<open>child.parent = this\<close> and
  \<open>child.index = i\<close>: the step by which the loop over the children hands a finished
  subtree to its parent.
\<close>

definition attach :: "nat \<Rightarrow> nat \<Rightarrow> nat \<Rightarrow> 'a heap \<Rightarrow> 'a heap" where
  "attach x node i t =
     (t[x := (t ! x)\<lparr>parent := Some node\<rparr>])[x := (t[x := (t ! x)\<lparr>parent := Some node\<rparr>] ! x)\<lparr>index := i\<rparr>]"

section \<open>Stores used as concrete inputs\<close>

text \<open>
  The tree of the test suite, \<open>1 \<rightarrow> {11 \<rightarrow> {111, 112}, 12}\<close>, as the description given to
  \<open>parse\<close>, and the store \<open>parse\<close> builds from it in an empty store: the nodes
  \<open>1\<close>, \<open>11\<close>, \<open>111\<close>, \<open>112\<close>, \<open>12\<close> are the references 0 to 4.
\<close>

definition fixture :: "string IParseable" where
  "fixture =
     Parseable ''1''
       [Parseable ''11'' [Parseable ''111'' [], Parseable ''112'' []], Parseable ''12'' []]"

definition fixture_store :: "string heap" where
  "fixture_store = snd (parse fixture [])"

text \<open>
  \<open>node = new TreeNode("root"); node.addModel("a"); b = new TreeNode("b")\<close>: the state
  of the test of \<open>add\<close> with a position out of range, before the call.
\<close>

definition bounds_store :: "string heap" where
  "bounds_store =
     snd (new_TreeNode ''b'' (snd (addModel 0 ''a'' None (snd (new_TreeNode ''root'' [])))))"


text \<open>
  The callback of the test of \<open>mapAsync\<close>,
  \<open>node.model + "-" + (parent?.model || "null")\<close>, and the store the test expects.
\<close>

definition suffix_callback :: "(string, string) AsyncCallback" where
  "suffix_callback h node t par =
     model (h ! node) @ ''-'' @ (case par of None \<Rightarrow> ''null'' | Some p \<Rightarrow> model (t ! p))"

definition mapped_store :: "string heap" where
  "mapped_store =
     [\<lparr>model = ''1-null'', parent = None, children = [1, 4], index = 0\<rparr>,
      \<lparr>model = ''11-1-null'', parent = Some 0, children = [2, 3], index = 0\<rparr>,
      \<lparr>model = ''111-11-1-null'', parent = Some 1, children = [], index = 0\<rparr>,
      \<lparr>model = ''112-11-1-null'', parent = Some 1, children = [], index = 1\<rparr>,
      \<lparr>model = ''12-1-null'', parent = Some 0, children = [], index = 1\<rparr>]"

text \<open>
  A root with one child that has two leaf children; its encoding; and the store that
  decoding the encoding in an empty store gives.
\<close>

definition nested_tree :: "string IParseable" where
  "nested_tree = Parseable ''r'' [Parseable ''c'' [Parseable ''x'' [], Parseable ''y'' []]]"

definition nested_store :: "string heap" where
  "nested_store = snd (parse nested_tree [])"

definition nested_encoding :: "string NestedArray" where
  "nested_encoding = Arr [Val ''r'', Val ''c'', Arr [Val ''x'', Val ''y'']]"

definition nested_decoded :: "string heap" where
  "nested_decoded =
     [\<lparr>model = ''r'', parent = None, children = [1, 2], index = 0\<rparr>,
      \<lparr>model = ''c'', parent = Some 0, children = [], index = 0\<rparr>,
      \<lparr>model = ''x'', parent = Some 0, children = [3], index = 1\<rparr>,
      \<lparr>model = ''y'', parent = Some 2, children = [], index = 0\<rparr>]"




text \<open>
  The callback of the test of \<open>mapAsync\<close> as a function of the original node and the
  new parent node, and the nodes of the fixture.
\<close>

definition suffix_of :: "string heap \<Rightarrow> nat \<Rightarrow> string node option \<Rightarrow> string" where
  "suffix_of h node par =
     model (h ! node) @ ''-'' @ (case par of None \<Rightarrow> ''null'' | Some p \<Rightarrow> model p)"

definition fixture_nodes :: "nat IParseable" where
  "fixture_nodes = Parseable 0 [Parseable 1 [Parseable 2 [], Parseable 3 []], Parseable 4 []]"

section \<open>Lemmas on the store and on the re-indexing loop\<close>

declare digits_of.simps [simp del]
declare run_length_tokens.simps [simp del]

lemma refs_ok_iff:
  "refs_ok h \<longleftrightarrow> (\<forall>n<length h.
       (\<forall>p. parent (h ! n) = Some p \<longrightarrow> p < length h) \<and>
       (\<forall>c\<in>set (children (h ! n)). c < length h))"
  unfolding refs_ok_def by (auto split: option.splits)

lemma index_invariant_iff:
  "index_invariant h \<longleftrightarrow> (\<forall>n<length h. \<forall>p. parent (h ! n) = Some p \<longrightarrow>
       index (h ! n) < length (children (h ! p)) \<and> children (h ! p) ! index (h ! n) = n)"
  unfolding index_invariant_def by (auto split: option.splits)

lemma nth_list_update_gen: "h[i := x] ! n = (if n = i \<and> i < length h then x else h ! n)"
  by (cases "i < length h") (auto simp: nth_list_update list_update_beyond)

lemma length_set_index [simp]: "length (set_index cs i h) = length h"
  by (simp add: set_index_def)

lemma length_fold_set_index [simp]: "length (fold (set_index cs) is h) = length h"
  by (induction "is" arbitrary: h) auto

lemma length_reindex [simp]: "length (reindex cs k h) = length h"
  by (simp add: reindex_def)

lemma set_index_nth:
  "set_index cs i h ! n = (if n = cs ! i \<and> n < length h then (h ! n)\<lparr>index := i\<rparr> else h ! n)"
  by (auto simp: set_index_def nth_list_update_gen)

lemma upd_children_nth [simp]:
  "parent (h[a := (h ! a)\<lparr>children := cs\<rparr>] ! n) = parent (h ! n)"
  "model (h[a := (h ! a)\<lparr>children := cs\<rparr>] ! n) = model (h ! n)"
  "index (h[a := (h ! a)\<lparr>children := cs\<rparr>] ! n) = index (h ! n)"
  "children (h[a := (h ! a)\<lparr>children := cs\<rparr>] ! n) = (if n = a \<and> a < length h then cs else children (h ! n))"
  by (simp_all add: nth_list_update_gen)

lemma set_index_fields [simp]:
  "parent (set_index cs i h ! n) = parent (h ! n)"
  "model (set_index cs i h ! n) = model (h ! n)"
  "children (set_index cs i h ! n) = children (h ! n)"
  "index (set_index cs i h ! n) = (if n = cs ! i \<and> n < length h then i else index (h ! n))"
  by (simp_all add: set_index_nth)

lemma upd_parent_nth [simp]:
  "parent (h[a := (h ! a)\<lparr>parent := x\<rparr>] ! n) = (if n = a \<and> a < length h then x else parent (h ! n))"
  "model (h[a := (h ! a)\<lparr>parent := x\<rparr>] ! n) = model (h ! n)"
  "index (h[a := (h ! a)\<lparr>parent := x\<rparr>] ! n) = index (h ! n)"
  "children (h[a := (h ! a)\<lparr>parent := x\<rparr>] ! n) = children (h ! n)"
  by (simp_all add: nth_list_update_gen)

lemma upd_index_nth [simp]:
  "index (h[a := (h ! a)\<lparr>index := x\<rparr>] ! n) = (if n = a \<and> a < length h then x else index (h ! n))"
  "model (h[a := (h ! a)\<lparr>index := x\<rparr>] ! n) = model (h ! n)"
  "parent (h[a := (h ! a)\<lparr>index := x\<rparr>] ! n) = parent (h ! n)"
  "children (h[a := (h ! a)\<lparr>index := x\<rparr>] ! n) = children (h ! n)"
  by (simp_all add: nth_list_update_gen)

lemma fold_upt_Suc: "k \<le> m \<Longrightarrow> fold f [k..<Suc m] h = f m (fold f [k..<m] h)"
  by simp

lemma reindex_upto_frame:
  "\<exists>j. fold (set_index cs) [k..<m] h ! n = (h ! n)\<lparr>index := j\<rparr>"
proof (induction m)
  case 0
  show ?case by (rule exI [of _ "index (h ! n)"]) simp
next
  case (Suc m)
  then obtain j where j: "fold (set_index cs) [k..<m] h ! n = (h ! n)\<lparr>index := j\<rparr>" by blast
  show ?case
  proof (cases "k \<le> m")
    case True
    then show ?thesis using j by (auto simp: set_index_nth)
  next
    case False
    then show ?thesis using j by auto
  qed
qed

lemma reindex_upto_other:
  "\<forall>i. k \<le> i \<and> i < m \<longrightarrow> cs ! i \<noteq> n \<Longrightarrow> fold (set_index cs) [k..<m] h ! n = h ! n"
proof (induction m)
  case 0
  then show ?case by simp
next
  case (Suc m)
  then show ?case by (cases "k \<le> m") (auto simp: set_index_nth)
qed

lemma reindex_upto_hit:
  "k \<le> i \<Longrightarrow> i < m \<Longrightarrow> cs ! i = n \<Longrightarrow> n < length h \<Longrightarrow>
   (let j = index (fold (set_index cs) [k..<m] h ! n) in k \<le> j \<and> j < m \<and> cs ! j = n)"
proof (induction m)
  case 0
  then show ?case by simp
next
  case (Suc m)
  show ?case
  proof (cases "cs ! m = n")
    case True
    with Suc.prems show ?thesis by (auto simp: set_index_nth Let_def)
  next
    case False
    with Suc.prems have "i < m" by (cases "i = m") auto
    with Suc have "(let j = index (fold (set_index cs) [k..<m] h ! n) in k \<le> j \<and> j < m \<and> cs ! j = n)" by blast
    with False Suc.prems show ?thesis by (auto simp: set_index_nth Let_def)
  qed
qed

lemma owned_parent:
  "children_owned h \<Longrightarrow> p < length h \<Longrightarrow> c \<in> set (children (h ! p)) \<Longrightarrow> parent (h ! c) = Some p"
  by (auto simp: children_owned_def in_set_conv_nth)

lemma owned_index:
  "children_owned h \<Longrightarrow> p < length h \<Longrightarrow> i < length (children (h ! p)) \<Longrightarrow>
   index (h ! (children (h ! p) ! i)) = i"
  by (auto simp: children_owned_def)

lemma owned_distinct:
  assumes "children_owned h" "p < length h"
  shows "distinct (children (h ! p))"
  unfolding distinct_conv_nth
proof (intro allI impI)
  fix i j
  assume "i < length (children (h ! p))" "j < length (children (h ! p))" "i \<noteq> j"
  with assms owned_index [OF assms, of i] owned_index [OF assms, of j]
  show "children (h ! p) ! i \<noteq> children (h ! p) ! j" by auto
qed

lemma refs_child: "refs_ok h \<Longrightarrow> n < length h \<Longrightarrow> c \<in> set (children (h ! n)) \<Longrightarrow> c < length h"
  unfolding refs_ok_iff by blast

lemma refs_parent: "refs_ok h \<Longrightarrow> n < length h \<Longrightarrow> parent (h ! n) = Some p \<Longrightarrow> p < length h"
  unfolding refs_ok_iff by blast

lemma nth_in_set_drop:
  assumes "k \<le> i" "i < length cs"
  shows "cs ! i \<in> set (drop k cs)"
proof -
  have "drop k cs ! (i - k) = cs ! i" using assms by simp
  moreover have "i - k < length (drop k cs)" using assms by simp
  ultimately show ?thesis by (metis nth_mem)
qed

lemma reindex_nth_other:
  "n \<notin> set (drop k cs) \<Longrightarrow> reindex cs k h ! n = h ! n"
  unfolding reindex_def
  by (rule reindex_upto_other) (auto dest: nth_in_set_drop)

lemma reindex_frame: "\<exists>j. reindex cs k h ! n = (h ! n)\<lparr>index := j\<rparr>"
  unfolding reindex_def by (rule reindex_upto_frame)

lemma reindex_parent [simp]: "parent (reindex cs k h ! n) = parent (h ! n)"
  using reindex_frame [where cs = cs and k = k and h = h and n = n] by auto

lemma reindex_children [simp]: "children (reindex cs k h ! n) = children (h ! n)"
  using reindex_frame [where cs = cs and k = k and h = h and n = n] by auto

lemma reindex_model [simp]: "model (reindex cs k h ! n) = model (h ! n)"
  using reindex_frame [where cs = cs and k = k and h = h and n = n] by auto

lemma drop_remove_nth: "drop i (take i xs @ drop (Suc i) xs) = drop (Suc i) xs"
  by (cases "i \<le> length xs") (auto simp: min_def)

lemma remove_nth_later:
  assumes "i \<le> j" "Suc j < length xs"
  shows "(take i xs @ drop (Suc i) xs) ! j = xs ! Suc j"
proof -
  have l: "length (take i xs) = i" using assms by simp
  have n: "\<not> j < i" using assms(1) by arith
  have "(take i xs @ drop (Suc i) xs) ! j = drop (Suc i) xs ! (j - i)"
    unfolding nth_append l using n by (simp only: if_False)
  also have "\<dots> = xs ! (Suc i + (j - i))" using assms by (intro nth_drop) simp
  also have "Suc i + (j - i) = Suc j" using assms(1) by simp
  finally show ?thesis .
qed

lemma remove_nth_earlier: "j < i \<Longrightarrow> j < length xs \<Longrightarrow> (take i xs @ drop (Suc i) xs) ! j = xs ! j"
  by (simp add: nth_append)


lemma distinct_remove_nth: "distinct xs \<Longrightarrow> distinct (take i xs @ drop (Suc i) xs)"
proof (induction xs arbitrary: i)
  case Nil
  then show ?case by simp
next
  case (Cons x xs)
  then show ?case by (cases i) (auto dest: in_set_takeD in_set_dropD)
qed

lemma reindex_index_hit:
  assumes "distinct cs" "k \<le> i" "i < length cs" "cs ! i < length h"
  shows "index (reindex cs k h ! (cs ! i)) = i"
proof -
  from reindex_upto_hit [OF assms(2,3) refl assms(4)]
  have "cs ! (index (reindex cs k h ! (cs ! i))) = cs ! i"
    and "index (reindex cs k h ! (cs ! i)) < length cs"
    by (auto simp: reindex_def Let_def)
  with assms(1,3) show ?thesis by (simp add: nth_eq_iff_index_eq)
qed

lemma reindex_index_other:
  "n \<notin> set (drop k cs) \<Longrightarrow> index (reindex cs k h ! n) = index (h ! n)"
  by (simp add: reindex_nth_other)

lemma drop_node_root: "parent (h ! this) = None \<Longrightarrow> drop_node this h = (this, h)"
  by (simp add: drop_node_def)

lemma drop_node_length: "length (snd (drop_node this h)) = length h"
  by (auto simp: drop_node_def Let_def split: option.splits)


lemma drop_node_parent:
  "this < length h \<Longrightarrow> parent (h ! this) = Some p \<Longrightarrow>
   parent (snd (drop_node this h) ! n) = (if n = this then None else parent (h ! n))"
  by (auto simp: drop_node_def Let_def nth_list_update_gen)

lemma drop_node_children:
  "this < length h \<Longrightarrow> p < length h \<Longrightarrow> parent (h ! this) = Some p \<Longrightarrow>
   children (snd (drop_node this h) ! n) =
     (if n = p then take (index (h ! this)) (children (h ! p)) @ drop (Suc (index (h ! this))) (children (h ! p))
      else children (h ! n))"
  by (auto simp: drop_node_def Let_def nth_list_update_gen)



lemma drop_node_index_other:
  "parent (h ! this) = Some p \<Longrightarrow> n \<noteq> this \<Longrightarrow>
   n \<notin> set (drop (Suc (index (h ! this))) (children (h ! p))) \<Longrightarrow>
   index (snd (drop_node this h) ! n) = index (h ! n)"
proof -
  assume a: "parent (h ! this) = Some p" "n \<noteq> this"
    "n \<notin> set (drop (Suc (index (h ! this))) (children (h ! p)))"
  let ?idx = "index (h ! this)" and ?old = "children (h ! p)"
  let ?cs = "take ?idx ?old @ drop (Suc ?idx) ?old"
  have "n \<notin> set (drop ?idx ?cs)" using a(3) by (simp add: drop_remove_nth del: drop_append)
  then have "reindex ?cs ?idx (h[p := (h ! p)\<lparr>children := ?cs\<rparr>]) ! n = h[p := (h ! p)\<lparr>children := ?cs\<rparr>] ! n"
    by (rule reindex_nth_other)
  then show ?thesis using a(1,2)
    by (simp add: drop_node_def Let_def nth_list_update_gen del: drop_append)
qed

lemma drop_node_index_later:
  assumes "parent (h ! this) = Some p" "distinct (children (h ! p))"
    "index (h ! this) \<le> j" "Suc j < length (children (h ! p))" 
    "children (h ! p) ! Suc j < length h" "children (h ! p) ! Suc j \<noteq> this"
  shows "index (snd (drop_node this h) ! (children (h ! p) ! Suc j)) = j"
proof -
  let ?idx = "index (h ! this)" and ?old = "children (h ! p)"
  let ?cs = "take ?idx ?old @ drop (Suc ?idx) ?old"
  let ?h1 = "h[p := (h ! p)\<lparr>children := ?cs\<rparr>]"
  have d: "distinct ?cs" using assms(2) by (rule distinct_remove_nth)
  have nth: "?cs ! j = ?old ! Suc j" using assms(3,4) by (rule remove_nth_later)
  have len: "j < length ?cs" using assms(3,4) by auto
  have "?cs ! j < length ?h1" using assms(5) by (simp only: nth length_list_update)
  from reindex_index_hit [OF d assms(3) len this]
  have "index (reindex ?cs ?idx ?h1 ! (?old ! Suc j)) = j" by (simp only: nth)
  then show ?thesis using assms(1,6)
    by (simp add: drop_node_def Let_def nth_list_update_gen)
qed

lemma set_drop_nth:
  assumes "x \<in> set (drop k xs)"
  shows "\<exists>j. k \<le> j \<and> j < length xs \<and> xs ! j = x"
proof -
  from assms obtain m where m: "m < length (drop k xs)" "drop k xs ! m = x"
    by (auto simp: in_set_conv_nth)
  then have "k + m < length xs" "xs ! (k + m) = x" by auto
  then show ?thesis by (intro exI [of _ "k + m"]) simp
qed

lemma distinct_nth_notin_drop:
  assumes "distinct xs" "i < k" "i < length xs"
  shows "xs ! i \<notin> set (drop k xs)"
proof
  assume "xs ! i \<in> set (drop k xs)"
  then obtain j where "k \<le> j" "j < length xs" "xs ! j = xs ! i" using set_drop_nth by metis
  with assms show False by (simp add: nth_eq_iff_index_eq)
qed

lemma inv_index:
  "index_invariant h \<Longrightarrow> n < length h \<Longrightarrow> parent (h ! n) = Some p \<Longrightarrow>
   index (h ! n) < length (children (h ! p)) \<and> children (h ! p) ! index (h ! n) = n"
  unfolding index_invariant_iff by blast

lemma drop_node_wf:
  assumes wf: "wf h" and tl: "this < length h"
  shows "wf (snd (drop_node this h))"
proof (cases "parent (h ! this)")
  case None
  then show ?thesis using wf by (simp add: drop_node_root)
next
  case (Some p)
  let ?h' = "snd (drop_node this h)"
  let ?idx = "index (h ! this)" and ?old = "children (h ! p)"
  let ?cs = "take ?idx ?old @ drop (Suc ?idx) ?old"
  from wf have refs: "refs_ok h" and inv: "index_invariant h" and own: "children_owned h"
    by (auto simp: wf_def)
  have p: "p < length h" using refs tl Some by (rule refs_parent)
  have idx: "?idx < length ?old" "?old ! ?idx = this" using inv_index [OF inv tl Some] by auto
  have dist: "distinct ?old" using own p by (rule owned_distinct)
  have len: "length ?h' = length h" by (rule drop_node_length)
  have P: "\<And>n. parent (?h' ! n) = (if n = this then None else parent (h ! n))"
    using tl Some by (rule drop_node_parent)
  have C: "\<And>n. children (?h' ! n) = (if n = p then ?cs else children (h ! n))"
    using tl p Some by (rule drop_node_children)
  have I1: "\<And>n. n \<noteq> this \<Longrightarrow> n \<notin> set (drop (Suc ?idx) ?old) \<Longrightarrow> index (?h' ! n) = index (h ! n)"
    using Some by (rule drop_node_index_other)
  have old_lt: "\<And>j. j < length ?old \<Longrightarrow> ?old ! j < length h"
    using refs p by (auto intro: refs_child)
  have old_this: "\<And>j. j < length ?old \<Longrightarrow> j \<noteq> ?idx \<Longrightarrow> ?old ! j \<noteq> this"
    using dist idx by (metis nth_eq_iff_index_eq)
  have I2: "index (?h' ! (?old ! Suc j)) = j" if a: "?idx \<le> j" "Suc j < length ?old" for j
  proof -
    have "Suc j \<noteq> ?idx" using a(1) by simp
    from drop_node_index_later [OF Some dist a old_lt [OF a(2)] old_this [OF a(2) this]]
    show ?thesis .
  qed
  have lcs: "length ?cs = length ?old - 1" using idx(1) by auto
  have cs_early: "\<And>j. j < ?idx \<Longrightarrow> ?cs ! j = ?old ! j"
    using idx(1) by (auto intro: remove_nth_earlier)
  have cs_late: "\<And>j. ?idx \<le> j \<Longrightarrow> Suc j < length ?old \<Longrightarrow> ?cs ! j = ?old ! Suc j"
    by (rule remove_nth_later)
  have set_cs: "set ?cs \<subseteq> set ?old" by (auto dest: in_set_takeD in_set_dropD)
  have not_child: "\<And>n q. parent (h ! n) = Some q \<Longrightarrow> q \<noteq> p \<Longrightarrow> n \<notin> set ?old"
    using owned_parent [OF own p] by fastforce
  have r: "refs_ok ?h'"
    unfolding refs_ok_iff len
  proof (intro allI impI conjI ballI)
    fix n q assume "n < length h" "parent (?h' ! n) = Some q"
    then show "q < length h" using refs by (auto simp: P split: if_splits intro: refs_parent)
  next
    fix n c assume n: "n < length h" and "c \<in> set (children (?h' ! n))"
    then have "c \<in> set (children (h ! n)) \<or> c \<in> set ?old" using set_cs by (auto simp: C split: if_splits)
    then show "c < length h" using refs n p by (auto intro: refs_child)
  qed
  have i: "index_invariant ?h'"
    unfolding index_invariant_iff len
  proof (intro allI impI)
    fix n q assume n: "n < length h" and "parent (?h' ! n) = Some q"
    then have nt: "n \<noteq> this" and q: "parent (h ! n) = Some q" by (auto simp: P split: if_splits)
    from inv_index [OF inv n q]
    have old: "index (h ! n) < length (children (h ! q))" "children (h ! q) ! index (h ! n) = n" by auto
    show "index (?h' ! n) < length (children (?h' ! q)) \<and> children (?h' ! q) ! index (?h' ! n) = n"
    proof (cases "q = p")
      case False
      then have "n \<notin> set (drop (Suc ?idx) ?old)" using not_child [OF q] by (auto dest: in_set_dropD)
      then have "index (?h' ! n) = index (h ! n)" using nt by (rule I1 [rotated])
      then show ?thesis using old False by (simp add: C)
    next
      case True
      let ?i = "index (h ! n)"
      have ne: "?i \<noteq> ?idx" using old idx nt True by auto
      show ?thesis
      proof (cases "?i < ?idx")
        case lt: True
        then have "n \<notin> set (drop (Suc ?idx) ?old)"
          using distinct_nth_notin_drop [OF dist, of ?i "Suc ?idx"] old True by auto
        then have "index (?h' ! n) = ?i" using nt by (rule I1 [rotated])
        then show ?thesis using old True lt idx(1) cs_early [OF lt] by (simp add: C lcs)
      next
        case False
        then obtain j where j: "?i = Suc j" "?idx \<le> j" using ne by (cases ?i) auto
        have sj: "Suc j < length ?old" using old True j by simp
        have "index (?h' ! (?old ! Suc j)) = j" using j(2) sj by (rule I2)
        moreover have "?old ! Suc j = n" using old True j by simp
        ultimately show ?thesis using cs_late [OF j(2) sj] sj by (simp add: C True lcs)
      qed
    qed
  qed
  have o: "children_owned ?h'"
    unfolding children_owned_def len
  proof (intro allI impI)
    fix q k assume q: "q < length h" and k: "k < length (children (?h' ! q))"
    let ?c = "children (?h' ! q) ! k"
    show "parent (?h' ! ?c) = Some q \<and> index (?h' ! ?c) = k"
    proof (cases "q = p")
      case False
      then have c: "?c = children (h ! q) ! k" and k': "k < length (children (h ! q))"
        using k by (auto simp: C)
      have pc: "parent (h ! ?c) = Some q" and ic: "index (h ! ?c) = k"
        using own q k' unfolding c children_owned_def by auto
      have nt: "?c \<noteq> this" using pc Some False by auto
      have "?c \<notin> set (drop (Suc ?idx) ?old)" using not_child [OF pc False] by (auto dest: in_set_dropD)
      then have "index (?h' ! ?c) = index (h ! ?c)" using nt by (rule I1 [rotated])
      then show ?thesis using pc ic nt by (simp add: P)
    next
      case True
      then have c: "?c = ?cs ! k" and k': "k < length ?old - 1" using k lcs by (auto simp: C)
      show ?thesis
      proof (cases "k < ?idx")
        case lt: True
        have c': "?c = ?old ! k" using c cs_early [OF lt] by simp
        have kl: "k < length ?old" using k' by simp
        have nt: "?c \<noteq> this" unfolding c' using kl lt by (intro old_this) auto
        have "?old ! k \<notin> set (drop (Suc ?idx) ?old)"
          using distinct_nth_notin_drop [OF dist, of k "Suc ?idx"] lt kl by auto
        then have "index (?h' ! ?c) = index (h ! ?c)" using nt unfolding c' by (intro I1) auto
        moreover have "index (h ! ?c) = k" unfolding c' using own p kl by (rule owned_index)
        moreover have "parent (h ! ?c) = Some p" unfolding c' using own p kl by (auto intro: owned_parent)
        ultimately show ?thesis using nt True by (simp add: P)
      next
        case False
        then have ge: "?idx \<le> k" by simp
        have sk: "Suc k < length ?old" using k' by simp
        have c': "?c = ?old ! Suc k" using c cs_late [OF ge sk] by simp
        have nt: "?c \<noteq> this" unfolding c' using sk ge by (intro old_this) auto
        have "index (?h' ! ?c) = k" unfolding c' using ge sk by (rule I2)
        moreover have "parent (h ! ?c) = Some p" unfolding c' using own p sk by (auto intro: owned_parent)
        ultimately show ?thesis using nt True by (simp add: P)
      qed
    qed
  qed
  show ?thesis using r i o by (simp add: wf_def)
qed

lemma distinct_insert_nth:
  assumes "distinct xs" "x \<notin> set xs"
  shows "distinct (take k xs @ [x] @ drop k xs)"
proof -
  have "distinct (take k xs @ drop k xs)" using assms(1) by simp
  then have "set (take k xs) \<inter> set (drop k xs) = {}" "distinct (take k xs)" "distinct (drop k xs)"
    by (simp_all only: distinct_append)
  then show ?thesis using assms(2) by (auto dest: in_set_takeD in_set_dropD)
qed

lemma add_length: "length (snd (add this child k h)) = length h"
  by (auto simp: add_def Let_def split: option.splits)

lemma add_parent:
  "child < length h \<Longrightarrow>
   parent (snd (add this child k h) ! n) = (if n = child then Some this else parent (h ! n))"
  by (auto simp: add_def Let_def nth_list_update_gen split: option.splits)

lemma add_model: "model (snd (add this child k h) ! n) = model (h ! n)"
  by (auto simp: add_def Let_def nth_list_update_gen split: option.splits)

lemma add_append_children:
  "this < length h \<Longrightarrow>
   children (snd (add this child None h) ! n) =
     (if n = this then children (h ! this) @ [child] else children (h ! n))"
  by (auto simp: add_def Let_def nth_list_update_gen)

lemma add_append_index:
  "child < length h \<Longrightarrow>
   index (snd (add this child None h) ! n) =
     (if n = child then length (children (h ! this)) else index (h ! n))"
  by (auto simp: add_def Let_def nth_list_update_gen)

lemma add_result:
  "fst (add this child k h) = Inr c \<Longrightarrow> c = child"
  by (auto simp: add_def Let_def split: option.splits if_splits)

lemma add_ok_iff:
  "(\<exists>c. fst (add this child k h) = Inr c) \<longleftrightarrow>
   (case k of None \<Rightarrow> True | Some i \<Rightarrow> 0 \<le> i \<and> i \<le> int (length (children (h ! this))))"
  by (auto simp: add_def Let_def nth_list_update_gen split: option.splits if_splits)

lemma add_at_children:
  "this < length h \<Longrightarrow> 0 \<le> k \<Longrightarrow> k \<le> int (length (children (h ! this))) \<Longrightarrow>
   children (snd (add this child (Some k) h) ! n) =
     (if n = this then take (nat k) (children (h ! this)) @ [child] @ drop (nat k) (children (h ! this))
      else children (h ! n))"
  by (auto simp: add_def Let_def nth_list_update_gen)

lemma add_at_index_other:
  "0 \<le> k \<Longrightarrow> k \<le> int (length (children (h ! this))) \<Longrightarrow>
   n \<noteq> child \<Longrightarrow> n \<notin> set (drop (nat k) (children (h ! this))) \<Longrightarrow>
   index (snd (add this child (Some k) h) ! n) = index (h ! n)"
  by (auto simp: add_def Let_def nth_list_update_gen reindex_index_other)

lemma add_at_heap:
  "0 \<le> k \<Longrightarrow> k \<le> int (length (children (h ! this))) \<Longrightarrow>
   snd (add this child (Some k) h) =
     (let h1 = h[child := (h ! child)\<lparr>parent := Some this\<rparr>];
          cs = take (nat k) (children (h ! this)) @ [child] @ drop (nat k) (children (h ! this))
      in reindex cs (nat k) (h1[this := (h1 ! this)\<lparr>children := cs\<rparr>]))"
  by (auto simp: add_def Let_def nth_list_update_gen)

lemma add_at_index_hit:
  assumes "0 \<le> k" "k \<le> int (length (children (h ! this)))" "this < length h" "child < length h"
    "distinct (children (h ! this))" "child \<notin> set (children (h ! this))"
    "\<forall>c\<in>set (children (h ! this)). c < length h"
    "nat k \<le> i" "i \<le> length (children (h ! this))"
  shows "index (snd (add this child (Some k) h) ! ((take (nat k) (children (h ! this)) @ [child] @ drop (nat k) (children (h ! this))) ! i)) = i"
proof -
  let ?old = "children (h ! this)"
  let ?cs = "take (nat k) ?old @ [child] @ drop (nat k) ?old"
  let ?h1 = "h[child := (h ! child)\<lparr>parent := Some this\<rparr>]"
  let ?h2 = "?h1[this := (?h1 ! this)\<lparr>children := ?cs\<rparr>]"
  have d: "distinct ?cs" using assms(5,6) by (rule distinct_insert_nth)
  have l: "i < length ?cs" using assms(1,2,9) by auto
  have "?cs ! i \<in> set ?cs" using l by (rule nth_mem)
  then have "?cs ! i = child \<or> ?cs ! i \<in> set ?old" by (auto dest: in_set_takeD in_set_dropD)
  then have "?cs ! i < length h" using assms(4,7) by auto
  then have "?cs ! i < length ?h2" by (simp only: length_list_update)
  from reindex_index_hit [OF d assms(8) l this]
  show ?thesis unfolding add_at_heap [OF assms(1,2)] Let_def .
qed

lemma add_detached_index:
  assumes wf: "wf h" and tl: "this < length h" and cl: "child < length h"
    and det: "parent (h ! child) = None"
    and ok: "fst (add this child k h) = Inr c"
  defines "j \<equiv> (case k of None \<Rightarrow> length (children (h ! this)) | Some i \<Rightarrow> nat i)"
  defines "cs \<equiv> take j (children (h ! this)) @ [child] @ drop j (children (h ! this))"
  shows "children (snd (add this child k h) ! n) = (if n = this then cs else children (h ! n))"
    and "i < length cs \<Longrightarrow> index (snd (add this child k h) ! (cs ! i)) = i"
    and "n \<notin> set cs \<Longrightarrow> index (snd (add this child k h) ! n) = index (h ! n)"
    and "child \<notin> set (children (h ! this))" and "distinct cs" and "j \<le> length (children (h ! this))"
proof -
  let ?old = "children (h ! this)"
  from wf have refs: "refs_ok h" and inv: "index_invariant h" and own: "children_owned h"
    by (auto simp: wf_def)
  have dist: "distinct ?old" using own tl by (rule owned_distinct)
  show notin: "child \<notin> set ?old" using owned_parent [OF own tl] det by fastforce
  have old_lt: "\<forall>c\<in>set ?old. c < length h" using refs tl by (auto intro: refs_child)
  show "distinct cs" unfolding cs_def using dist notin by (rule distinct_insert_nth)
  show jl: "j \<le> length ?old"
    using ok add_ok_iff [of this child k h] by (auto simp: j_def split: option.splits)
  have early: "cs ! i = ?old ! i" if "i < j" for i
    using that jl by (simp add: cs_def nth_append)
  have atj: "cs ! j = child" using jl by (simp add: cs_def nth_append)
  show "children (snd (add this child k h) ! n) = (if n = this then cs else children (h ! n))"
  proof (cases k)
    case None
    then show ?thesis using tl by (simp add: add_append_children cs_def j_def)
  next
    case (Some i)
    then have "0 \<le> i" "i \<le> int (length ?old)" using ok add_ok_iff [of this child k h] by auto
    then show ?thesis using tl Some by (simp add: add_at_children cs_def j_def)
  qed
  show "index (snd (add this child k h) ! n) = index (h ! n)" if "n \<notin> set cs"
  proof (cases k)
    case None
    then show ?thesis using that cl by (auto simp: add_append_index cs_def)
  next
    case (Some i)
    then have r: "0 \<le> i" "i \<le> int (length ?old)" using ok add_ok_iff [of this child k h] by auto
    have "n \<noteq> child" "n \<notin> set (drop (nat i) ?old)" using that Some by (auto simp: cs_def j_def)
    with r show ?thesis unfolding Some by (intro add_at_index_other)
  qed
  show "index (snd (add this child k h) ! (cs ! i)) = i" if il: "i < length cs"
  proof (cases "i < j")
    case True
    have io: "i < length ?old" using True jl by simp
    have ne: "cs ! i \<noteq> child" using early [OF True] notin io by auto
    have idx: "index (h ! (cs ! i)) = i" unfolding early [OF True] using own tl io by (rule owned_index)
    show ?thesis
    proof (cases k)
      case None
      then show ?thesis using ne idx cl by (simp add: add_append_index)
    next
      case (Some m)
      then have r: "0 \<le> m" "m \<le> int (length ?old)" using ok add_ok_iff [of this child k h] by auto
      have "?old ! i \<notin> set (drop (nat m) ?old)"
        using distinct_nth_notin_drop [OF dist, of i "nat m"] True io Some by (simp add: j_def)
      then have "cs ! i \<notin> set (drop (nat m) ?old)" using early [OF True] by simp
      with r ne have "index (snd (add this child (Some m) h) ! (cs ! i)) = index (h ! (cs ! i))"
        by (intro add_at_index_other)
      then show ?thesis using idx Some by simp
    qed
  next
    case False
    show ?thesis
    proof (cases k)
      case None
      then have "j = length ?old" by (simp add: j_def)
      then have "i = j" using False il by (simp add: cs_def)
      then show ?thesis using atj None cl \<open>j = length ?old\<close> by (simp add: add_append_index)
    next
      case (Some m)
      then have r: "0 \<le> m" "m \<le> int (length ?old)" using ok add_ok_iff [of this child k h] by auto
      have jm: "j = nat m" using Some by (simp add: j_def)
      have "nat m \<le> i" "i \<le> length ?old" using False il jl by (auto simp: jm cs_def)
      from add_at_index_hit [OF r tl cl dist notin old_lt this]
      show ?thesis unfolding Some cs_def jm .
    qed
  qed
qed

lemma add_detached_wf:
  assumes wf: "wf h" and tl: "this < length h" and cl: "child < length h"
    and det: "parent (h ! child) = None"
    and ok: "fst (add this child k h) = Inr c"
  shows "wf (snd (add this child k h))"
proof -
  let ?h' = "snd (add this child k h)" and ?old = "children (h ! this)"
  define j where "j = (case k of None \<Rightarrow> length ?old | Some i \<Rightarrow> nat i)"
  define cs where "cs = take j ?old @ [child] @ drop j ?old"
  note f = add_detached_index [OF wf tl cl det ok, folded j_def, folded cs_def]
  from wf have refs: "refs_ok h" and inv: "index_invariant h" and own: "children_owned h"
    by (auto simp: wf_def)
  have len: "length ?h' = length h" by (rule add_length)
  have P: "\<And>n. parent (?h' ! n) = (if n = child then Some this else parent (h ! n))"
    using cl by (rule add_parent)
  have C: "\<And>n. children (?h' ! n) = (if n = this then cs else children (h ! n))" by (rule f(1))
  have set_cs: "set cs = insert child (set ?old)"
  proof -
    have "set (take j ?old) \<union> set (drop j ?old) = set ?old" by (metis append_take_drop_id set_append)
    then show ?thesis unfolding cs_def by auto
  qed
  have other: "n \<notin> set cs" if "parent (h ! n) = Some q" "q \<noteq> this" for n q
    using that owned_parent [OF own tl, of n] det unfolding set_cs by auto
  have hit: "index (?h' ! n) < length cs \<and> cs ! index (?h' ! n) = n" if "n \<in> set cs" for n
  proof -
    from that obtain i where i: "i < length cs" "cs ! i = n" by (auto simp: in_set_conv_nth)
    with f(2) [OF i(1)] show ?thesis by simp
  qed
  have r: "refs_ok ?h'"
    unfolding refs_ok_iff len
  proof (intro allI impI conjI ballI)
    fix n q assume "n < length h" "parent (?h' ! n) = Some q"
    then show "q < length h" using refs tl by (auto simp: P split: if_splits intro: refs_parent)
  next
    fix n x assume n: "n < length h" and "x \<in> set (children (?h' ! n))"
    then have "x \<in> set (children (h ! n)) \<or> x \<in> set ?old \<or> x = child"
      by (auto simp: C set_cs split: if_splits)
    then show "x < length h" using refs n tl cl by (auto intro: refs_child)
  qed
  have i: "index_invariant ?h'"
    unfolding index_invariant_iff len
  proof (intro allI impI)
    fix n q assume n: "n < length h" and pq: "parent (?h' ! n) = Some q"
    show "index (?h' ! n) < length (children (?h' ! q)) \<and> children (?h' ! q) ! index (?h' ! n) = n"
    proof (cases "q = this")
      case True
      have "n \<in> set cs"
      proof (cases "n = child")
        case True
        then show ?thesis by (simp add: set_cs)
      next
        case False
        then have "parent (h ! n) = Some this" using pq True by (simp add: P)
        from inv_index [OF inv n this] have "n \<in> set ?old" by (metis nth_mem)
        then show ?thesis by (simp add: set_cs)
      qed
      from hit [OF this] show ?thesis by (simp add: C True)
    next
      case False
      then have nc: "n \<noteq> child" and q: "parent (h ! n) = Some q" using pq by (auto simp: P split: if_splits)
      have "index (?h' ! n) = index (h ! n)" using other [OF q False] by (rule f(3))
      then show ?thesis using inv_index [OF inv n q] False by (simp add: C)
    qed
  qed
  have o: "children_owned ?h'"
    unfolding children_owned_def len
  proof (intro allI impI)
    fix q m assume q: "q < length h" and m: "m < length (children (?h' ! q))"
    let ?c = "children (?h' ! q) ! m"
    show "parent (?h' ! ?c) = Some q \<and> index (?h' ! ?c) = m"
    proof (cases "q = this")
      case True
      then have c: "?c = cs ! m" and m': "m < length cs" using m by (auto simp: C)
      have "?c \<in> set cs" unfolding c using m' by (rule nth_mem)
      then have "?c = child \<or> parent (h ! ?c) = Some this"
        using owned_parent [OF own tl] by (auto simp: set_cs)
      then have "parent (?h' ! ?c) = Some this" by (auto simp: P)
      then show ?thesis using f(2) [OF m'] True c by simp
    next
      case False
      then have c: "?c = children (h ! q) ! m" and m': "m < length (children (h ! q))"
        using m by (auto simp: C)
      have pc: "parent (h ! ?c) = Some q" and ic: "index (h ! ?c) = m"
        using own q m' unfolding c children_owned_def by auto
      have nc: "?c \<noteq> child" using pc det by auto
      have "index (?h' ! ?c) = index (h ! ?c)" using other [OF pc False] by (rule f(3))
      then show ?thesis using pc ic nc by (simp add: P)
    qed
  qed
  show ?thesis using r i o by (simp add: wf_def)
qed






lemma swap_model: "model (snd (swap this i j h) ! n) = model (h ! n)"
  by (simp add: swap_def Let_def)




section \<open>Lemmas on the concrete stores\<close>

lemma fixture_store_eq:
  "fixture_store =
     [\<lparr>model = ''1'', parent = None, children = [1, 4], index = 0\<rparr>,
      \<lparr>model = ''11'', parent = Some 0, children = [2, 3], index = 0\<rparr>,
      \<lparr>model = ''111'', parent = Some 1, children = [], index = 0\<rparr>,
      \<lparr>model = ''112'', parent = Some 1, children = [], index = 1\<rparr>,
      \<lparr>model = ''12'', parent = Some 0, children = [], index = 1\<rparr>]"
  by (simp add: fixture_store_def fixture_def new_TreeNode_def add_def)


lemma nested_store_eq:
  "nested_store =
     [\<lparr>model = ''r'', parent = None, children = [1], index = 0\<rparr>,
      \<lparr>model = ''c'', parent = Some 0, children = [2, 3], index = 0\<rparr>,
      \<lparr>model = ''x'', parent = Some 1, children = [], index = 0\<rparr>,
      \<lparr>model = ''y'', parent = Some 1, children = [], index = 1\<rparr>]"
  by (simp add: nested_store_def nested_tree_def new_TreeNode_def add_def)

lemma bounds_store_eq:
  "bounds_store =
     [\<lparr>model = ''root'', parent = None, children = [1], index = 0\<rparr>,
      \<lparr>model = ''a'', parent = Some 0, children = [], index = 0\<rparr>,
      \<lparr>model = ''b'', parent = None, children = [], index = 0\<rparr>]"
  by (simp add: bounds_store_def new_TreeNode_def addModel_def add_def)

lemma bounds_wf: "wf bounds_store"
  unfolding bounds_store_eq by code_simp



section \<open>Further lemmas on add and drop\<close>

lemma add_out_of_range:
  "k < 0 \<or> k > int (length (children (h ! this))) \<Longrightarrow>
   add this child (Some k) h = (Inl RangeError, h[child := (h ! child)\<lparr>parent := Some this\<rparr>])"
  by (auto simp: add_def Let_def)

lemma add_children_this:
  assumes "this < length h" "fst (add this child k h) = Inr c"
  shows "\<exists>j \<le> length (children (h ! this)).
     children (snd (add this child k h) ! this) =
       take j (children (h ! this)) @ [child] @ drop j (children (h ! this))"
proof (cases k)
  case None
  show ?thesis
    by (rule exI [of _ "length (children (h ! this))"]) (simp add: None add_append_children assms(1))
next
  case (Some i)
  then have r: "0 \<le> i" "i \<le> int (length (children (h ! this)))"
    using assms(2) add_ok_iff [of this child k h] by auto
  show ?thesis
    by (rule exI [of _ "nat i"]) (use r in \<open>simp add: Some add_at_children assms(1)\<close>)
qed

lemma add_children_other:
  assumes "this < length h" "fst (add this child k h) = Inr c" "n \<noteq> this"
  shows "children (snd (add this child k h) ! n) = children (h ! n)"
proof (cases k)
  case None
  then show ?thesis using assms by (simp add: add_append_children)
next
  case (Some i)
  then have r: "0 \<le> i" "i \<le> int (length (children (h ! this)))"
    using assms(2) add_ok_iff [of this child k h] by auto
  then show ?thesis using assms Some by (simp add: add_at_children)
qed



section \<open>The path key\<close>

lemma takeWhile_zeros: "ks = [] \<or> hd ks \<noteq> 0 \<Longrightarrow> takeWhile (\<lambda>i. i = 0) (replicate z (0::nat) @ ks) = replicate z 0"
  by (induction z) (auto simp: takeWhile_eq_Nil_iff neq_Nil_conv)

lemma dropWhile_zeros: "ks = [] \<or> hd ks \<noteq> 0 \<Longrightarrow> dropWhile (\<lambda>i. i = 0) (replicate z (0::nat) @ ks) = ks"
  by (induction z) (auto simp: dropWhile_eq_self_iff neq_Nil_conv)

lemma run_length_tokens_zeros:
  assumes "ks = [] \<or> hd ks \<noteq> 0"
  shows "run_length_tokens (replicate z 0 @ ks) = (if z > 0 then [int z] else []) @ run_length_tokens ks"
proof (cases z)
  case 0
  then show ?thesis by simp
next
  case (Suc y)
  have "run_length_tokens (0 # replicate y 0 @ ks) =
      int (length (takeWhile (\<lambda>i. i = 0) (replicate (Suc y) 0 @ ks))) # run_length_tokens (dropWhile (\<lambda>i. i = 0) (replicate y 0 @ ks))"
    by (simp add: run_length_tokens.simps)
  then show ?thesis using assms Suc
    by (simp only: takeWhile_zeros dropWhile_zeros) simp
qed

lemma run_length_tokens_nonzero: "k \<noteq> 0 \<Longrightarrow> run_length_tokens (k # ks) = - int k # run_length_tokens ks"
  by (simp add: run_length_tokens.simps)

lemma pathKey_loop_tokens:
  "(case pathKey_loop is parts z of (ps, z') \<Rightarrow> ps @ (if z' > 0 then [int z'] else [])) =
   parts @ run_length_tokens (replicate z 0 @ is)"
proof (induction "is" arbitrary: parts z)
  case Nil
  show ?case using run_length_tokens_zeros [of "[]" z] by (simp add: run_length_tokens.simps)
next
  case (Cons idx rest)
  show ?case
  proof (cases "idx = 0")
    case True
    have e: "replicate z 0 @ 0 # rest = 0 # replicate z 0 @ rest" by (rule replicate_app_Cons_same)
    show ?thesis using Cons [of parts "z + 1"] True by (simp add: e)
  next
    case False
    have "run_length_tokens (replicate z 0 @ idx # rest) =
        (if z > 0 then [int z] else []) @ - int idx # run_length_tokens rest"
      using run_length_tokens_zeros [of "idx # rest" z] False
      by (simp add: run_length_tokens_nonzero)
    then show ?thesis using False Cons [of "(parts @ [int z]) @ [- int idx]" 0] Cons [of "parts @ [- int idx]" 0]
      by (cases "z > 0") simp_all
  qed
qed

lemma pathKey_of_eq: "pathKey_of is = run_length_key is"
proof (cases "is = []")
  case True
  then show ?thesis by (simp add: pathKey_of_def run_length_key_def run_length_tokens.simps)
next
  case False
  obtain ps z where l: "pathKey_loop is [] 0 = (ps, z)" by (cases "pathKey_loop is [] 0")
  with pathKey_loop_tokens [of "is" "[]" 0]
  have "(if z > 0 then ps @ [int z] else ps) = run_length_tokens is" by (simp split: if_splits)
  then show ?thesis using False l by (simp add: pathKey_of_def run_length_key_def)
qed























section \<open>Fuel\<close>

text \<open>A result obtained with some fuel is the result with any larger amount.\<close>

lemma pre_fuel_mono:
  "pre n h cb a s = Some r \<Longrightarrow> pre (n + k) h cb a s = Some r"
  "pre_children n h cb cs s = Some r \<Longrightarrow> pre_children (n + k) h cb cs s = Some r"
proof (induction n h cb a s and n h cb cs s arbitrary: r and r rule: pre_pre_children.induct)
  case (1 h callback this s)
  then show ?case by simp
next
  case (2 fuel h callback this s)
  then show ?case by (auto split: prod.splits bool.splits)
next
  case (3 fuel h callback s)
  then show ?case by simp
next
  case (4 fuel h callback c cs s)
  then show ?case by (auto split: option.splits prod.splits)
qed

lemma post_fuel_mono:
  "post n h cb a s = Some r \<Longrightarrow> post (n + k) h cb a s = Some r"
  "post_children n h cb cs s = Some r \<Longrightarrow> post_children (n + k) h cb cs s = Some r"
proof (induction n h cb a s and n h cb cs s arbitrary: r and r rule: post_post_children.induct)
  case (1 h callback this s)
  then show ?case by simp
next
  case (2 fuel h callback this s)
  then show ?case by (auto split: option.splits prod.splits bool.splits)
next
  case (3 fuel h callback s)
  then show ?case by simp
next
  case (4 fuel h callback c cs s)
  then show ?case by (auto split: option.splits prod.splits)
qed

lemma breadth_loop_fuel_mono:
  "breadth_loop n h cb q i s = Some r \<Longrightarrow> breadth_loop (n + k) h cb q i s = Some r"
proof (induction n arbitrary: q i s)
  case 0
  then show ?case by simp
next
  case (Suc n)
  then show ?case by (auto simp: Let_def split: if_splits prod.splits bool.splits)
qed

lemma flatten_fuel_mono: "flatten n h m a = Some r \<Longrightarrow> flatten (n + k) h m a = Some r"
  by (cases m) (auto simp: flatten_def breadth_def dest: pre_fuel_mono(1) post_fuel_mono(1) breadth_loop_fuel_mono)

lemma mapAsync_children_fuel_mono_aux:
  assumes "\<And>a p t r. mapAsync n cb h a p t = Some r \<Longrightarrow> mapAsync (n + k) cb h a p t = Some r"
  shows "mapAsync_children n cb h node cs i t = Some r' \<Longrightarrow>
    mapAsync_children (n + k) cb h node cs i t = Some r'"
proof (induction cs arbitrary: i t r')
  case Nil
  then show ?case by simp
next
  case (Cons c cs)
  from Cons.prems obtain x t1 where x: "mapAsync n cb h c (Some node) t = Some (x, t1)"
    by (auto split: option.splits)
  let ?t3 = "(t1[x := (t1 ! x)\<lparr>parent := Some node\<rparr>])[x := (t1[x := (t1 ! x)\<lparr>parent := Some node\<rparr>] ! x)\<lparr>index := i\<rparr>]"
  from Cons.prems x obtain ys t4 where y: "mapAsync_children n cb h node cs (Suc i) ?t3 = Some (ys, t4)"
    and r: "r' = (x # ys, t4)"
    by (auto simp: Let_def split: option.splits)
  show ?case using assms [OF x] Cons.IH [OF y] r by (simp add: Let_def)
qed

lemma mapAsync_fuel_mono:
  "mapAsync n cb h a p t = Some r \<Longrightarrow> mapAsync (n + k) cb h a p t = Some r"
proof (induction n arbitrary: a p t r)
  case 0
  then show ?case by simp
next
  case (Suc n)
  from Suc.prems obtain cs t2 where
    c: "mapAsync_children n cb h (length t) (children (h ! a)) 0
          (t @ [\<lparr>model = cb h a t p, parent = None, children = [], index = 0\<rparr>]) = Some (cs, t2)"
    and r: "r = (length t, t2[length t := (t2 ! length t)\<lparr>children := cs\<rparr>])"
    by (auto simp: new_TreeNode_def split: option.splits)
  from mapAsync_children_fuel_mono_aux [OF Suc.IH c]
  show ?case using r by (simp add: new_TreeNode_def)
qed

lemma those_map_mono:
  "those (map f xs) = Some ys \<Longrightarrow> (\<And>x y. x \<in> set xs \<Longrightarrow> f x = Some y \<Longrightarrow> g x = Some y) \<Longrightarrow>
   those (map g xs) = Some ys"
proof (induction xs arbitrary: ys)
  case Nil
  then show ?case by simp
next
  case (Cons x xs)
  then show ?case by (auto split: option.splits)
qed

lemma toObject_fuel_mono: "toObject n h a = Some r \<Longrightarrow> toObject (n + k) h a = Some r"
proof (induction n arbitrary: a r)
  case 0
  then show ?case by simp
next
  case (Suc n)
  from Suc.prems obtain ys where ys: "those (map (toObject n h) (children (h ! a))) = Some ys"
    and r: "r = Parseable (model (h ! a)) ys" by auto
  have "those (map (toObject (n + k) h) (children (h ! a))) = Some ys"
    using ys by (rule those_map_mono) (rule Suc.IH)
  then show ?case using r by simp
qed

lemma toNestedArray_fuel_mono: "toNestedArray n h a = Some r \<Longrightarrow> toNestedArray (n + k) h a = Some r"
proof (induction n arbitrary: a r)
  case 0
  then show ?case by simp
next
  case (Suc n)
  show ?case
  proof (cases "\<not> isLeaf h a \<and> length (children (h ! a)) \<noteq> 1 \<and> \<not> list_all (isLeaf h) (children (h ! a))")
    case True
    with Suc.prems obtain ys where ys: "those (map (toNestedArray n h) (children (h ! a))) = Some ys"
      and r: "r = Arr (Val (model (h ! a)) # ys)" by auto
    have "those (map (toNestedArray (n + k) h) (children (h ! a))) = Some ys"
      using ys by (rule those_map_mono) (rule Suc.IH)
    then show ?thesis using r True by simp
  next
    case False
    then show ?thesis using Suc.prems Suc.IH [of "children (h ! a) ! 0"]
      by (auto split: if_splits option.splits NestedArray.splits)
  qed
qed

section \<open>Regions built by clone and map\<close>

lemma extends_refl [simp]: "extends t t"
  by (simp add: extends_def)


lemma extends_nth: "extends t t' \<Longrightarrow> n < length t \<Longrightarrow> t' ! n = t ! n"
  by (simp add: extends_def)

lemma extends_length: "extends t t' \<Longrightarrow> length t \<le> length t'"
  by (simp add: extends_def)

lemma extends_append [simp]: "extends t (t @ xs)"
  by (simp add: extends_def nth_append)

lemma extends_update: "length t \<le> a \<Longrightarrow> extends t (t'[a := x]) = extends t t'"
  by (auto simp: extends_def nth_list_update_gen)

lemma wf_fresh:
  assumes wf: "wf t0" and ext: "extends t0 t" and fr: "fresh (length t0) t [r] None 0"
  shows "wf t"
proof -
  let ?lo = "length t0"
  from wf have refs: "refs_ok t0" and inv: "index_invariant t0" and own: "children_owned t0"
    by (auto simp: wf_def)
  from fr have rc: "region_children ?lo t" and rp: "region_parents ?lo t [r]"
    and rr: "region_roots ?lo t [r] None 0" by (auto simp: fresh_def)
  have old: "\<And>n. n < ?lo \<Longrightarrow> t ! n = t0 ! n" using ext by (rule extends_nth)
  have le: "?lo \<le> length t" using ext by (rule extends_length)
  have newp: "\<exists>p. parent (t ! n) = Some p \<and> ?lo \<le> p \<and> p < length t \<and>
      index (t ! n) < length (children (t ! p)) \<and> children (t ! p) ! index (t ! n) = n"
    if "?lo \<le> n" "n < length t" "n \<noteq> r" for n
    using rp that unfolding region_parents_def by simp
  have newc: "(\<forall>c\<in>set (children (t ! n)). ?lo \<le> c \<and> c < length t) \<and>
     (\<forall>k<length (children (t ! n)).
        parent (t ! (children (t ! n) ! k)) = Some n \<and> index (t ! (children (t ! n) ! k)) = k)"
    if "?lo \<le> n" "n < length t" for n
    using rc that unfolding region_children_def by blast
  have r: "parent (t ! r) = None" using rr by (simp add: region_roots_def)
  have a: "refs_ok t"
    unfolding refs_ok_iff
  proof (intro allI impI conjI ballI)
    fix n p assume n: "n < length t" and p: "parent (t ! n) = Some p"
    show "p < length t"
    proof (cases "n < ?lo")
      case True
      then have "parent (t0 ! n) = Some p" using p old by simp
      with refs True have "p < ?lo" by (rule refs_parent)
      then show ?thesis using le by simp
    next
      case False
      then show ?thesis using newp [of n] n p r by (cases "n = r") auto
    qed
  next
    fix n c assume n: "n < length t" and c: "c \<in> set (children (t ! n))"
    show "c < length t"
    proof (cases "n < ?lo")
      case True
      then have "c \<in> set (children (t0 ! n))" using c old by simp
      with refs True have "c < ?lo" by (rule refs_child)
      then show ?thesis using le by simp
    next
      case False
      then show ?thesis using newc [of n] n c by auto
    qed
  qed
  have b: "index_invariant t"
    unfolding index_invariant_iff
  proof (intro allI impI)
    fix n p assume n: "n < length t" and p: "parent (t ! n) = Some p"
    show "index (t ! n) < length (children (t ! p)) \<and> children (t ! p) ! index (t ! n) = n"
    proof (cases "n < ?lo")
      case True
      then have p0: "parent (t0 ! n) = Some p" using p old by simp
      with refs True have "p < ?lo" by (rule refs_parent)
      then show ?thesis using inv_index [OF inv True p0] old True by simp
    next
      case False
      then show ?thesis using newp [of n] n p r by (cases "n = r") auto
    qed
  qed
  have c: "children_owned t"
    unfolding children_owned_def
  proof (intro allI impI)
    fix p k assume p: "p < length t" and k: "k < length (children (t ! p))"
    show "parent (t ! (children (t ! p) ! k)) = Some p \<and> index (t ! (children (t ! p) ! k)) = k"
    proof (cases "p < ?lo")
      case True
      then have k0: "k < length (children (t0 ! p))" using k old by simp
      then have "children (t0 ! p) ! k \<in> set (children (t0 ! p))" by (rule nth_mem)
      with refs True have "children (t0 ! p) ! k < ?lo" by (rule refs_child)
      moreover have "parent (t0 ! (children (t0 ! p) ! k)) = Some p \<and> index (t0 ! (children (t0 ! p) ! k)) = k"
        using own True k0 unfolding children_owned_def by blast
      ultimately show ?thesis using True old by simp
    next
      case False
      then show ?thesis using newc [of p] p k by auto
    qed
  qed
  show ?thesis using a b c by (simp add: wf_def)
qed


lemma freshD:
  assumes "fresh lo t roots par i0"
  shows "\<And>n c. lo \<le> n \<Longrightarrow> n < length t \<Longrightarrow> c \<in> set (children (t ! n)) \<Longrightarrow> lo \<le> c \<and> c < length t"
    and "\<And>n k. lo \<le> n \<Longrightarrow> n < length t \<Longrightarrow> k < length (children (t ! n)) \<Longrightarrow>
          parent (t ! (children (t ! n) ! k)) = Some n \<and> index (t ! (children (t ! n) ! k)) = k"
    and "\<And>n. lo \<le> n \<Longrightarrow> n < length t \<Longrightarrow> n \<notin> set roots \<Longrightarrow>
          \<exists>p. parent (t ! n) = Some p \<and> lo \<le> p \<and> p < length t \<and>
            index (t ! n) < length (children (t ! p)) \<and> children (t ! p) ! index (t ! n) = n"
    and "distinct roots"
    and "\<And>r. r \<in> set roots \<Longrightarrow> lo \<le> r \<and> r < length t"
    and "\<And>k. k < length roots \<Longrightarrow> parent (t ! (roots ! k)) = par \<and> index (t ! (roots ! k)) = i0 + k"
  using assms unfolding fresh_def region_children_def region_parents_def region_roots_def
  by blast+

lemma freshI:
  assumes "\<And>n c. lo \<le> n \<Longrightarrow> n < length t \<Longrightarrow> c \<in> set (children (t ! n)) \<Longrightarrow> lo \<le> c \<and> c < length t"
    and "\<And>n k. lo \<le> n \<Longrightarrow> n < length t \<Longrightarrow> k < length (children (t ! n)) \<Longrightarrow>
          parent (t ! (children (t ! n) ! k)) = Some n \<and> index (t ! (children (t ! n) ! k)) = k"
    and "\<And>n. lo \<le> n \<Longrightarrow> n < length t \<Longrightarrow> n \<notin> set roots \<Longrightarrow>
          \<exists>p. parent (t ! n) = Some p \<and> lo \<le> p \<and> p < length t \<and>
            index (t ! n) < length (children (t ! p)) \<and> children (t ! p) ! index (t ! n) = n"
    and "distinct roots"
    and "\<And>r. r \<in> set roots \<Longrightarrow> lo \<le> r \<and> r < length t"
    and "\<And>k. k < length roots \<Longrightarrow> parent (t ! (roots ! k)) = par \<and> index (t ! (roots ! k)) = i0 + k"
  shows "fresh lo t roots par i0"
  unfolding fresh_def region_children_def region_parents_def region_roots_def
  using assms by blast

lemma attach_fields [simp]:
  "length (attach x node i t) = length t"
  "model (attach x node i t ! n) = model (t ! n)"
  "children (attach x node i t ! n) = children (t ! n)"
  "parent (attach x node i t ! n) = (if n = x \<and> x < length t then Some node else parent (t ! n))"
  "index (attach x node i t ! n) = (if n = x \<and> x < length t then i else index (t ! n))"
  by (auto simp: attach_def nth_list_update_gen)

lemma attach_nth_other: "n \<noteq> x \<Longrightarrow> attach x node i t ! n = t ! n"
  by (simp add: attach_def nth_list_update_gen)

lemma fresh_step:
  assumes e1: "extends t t1" and x: "x = length t" "x < length t1"
    and f1: "fresh (length t) t1 [x] None 0"
    and e4: "extends (attach x node i t1) t4"
    and f4: "fresh (length t1) t4 ys (Some node) (Suc i)"
  shows "extends t t4 \<and> fresh (length t) t4 (x # ys) (Some node) i"
proof
  let ?t3 = "attach x node i t1"
  have l3: "length ?t3 = length t1" by simp
  have le: "length t \<le> length t1" "length t1 \<le> length t4"
    using e1 e4 by (auto dest: extends_length)
  have old4: "\<And>n. n < length t1 \<Longrightarrow> t4 ! n = ?t3 ! n" using e4 by (auto dest: extends_nth)
  show "extends t t4"
    unfolding extends_def
  proof (intro conjI allI impI)
    show "length t \<le> length t4" using le by simp
    fix n assume n: "n < length t"
    then have "t4 ! n = ?t3 ! n" using old4 le by simp
    also have "\<dots> = t1 ! n" using n x by (simp add: attach_nth_other)
    also have "\<dots> = t ! n" using e1 n by (rule extends_nth)
    finally show "t4 ! n = t ! n" .
  qed
  note F1 = freshD [OF f1] and F4 = freshD [OF f4]
  have ys_lo: "\<And>r. r \<in> set ys \<Longrightarrow> length t1 \<le> r \<and> r < length t4" by (rule F4(5))
  have c4: "children (t4 ! n) = children (t1 ! n)" if "n < length t1" for n
    using old4 [OF that] by simp
  have p4: "parent (t4 ! n) = (if n = x then Some node else parent (t1 ! n))" if "n < length t1" for n
    using old4 [OF that] x by simp
  have i4: "index (t4 ! n) = (if n = x then i else index (t1 ! n))" if "n < length t1" for n
    using old4 [OF that] x by simp
  have px: "parent (t1 ! x) = None" using F1(6) [of 0] by simp
  show "fresh (length t) t4 (x # ys) (Some node) i"
  proof (rule freshI)
    fix n c assume n: "length t \<le> n" "n < length t4" and c: "c \<in> set (children (t4 ! n))"
    show "length t \<le> c \<and> c < length t4"
    proof (cases "n < length t1")
      case True
      then have "c \<in> set (children (t1 ! n))" using c c4 by simp
      from F1(1) [OF n(1) True this] show ?thesis using le by simp
    next
      case False
      then have "length t1 \<le> n" by simp
      from F4(1) [OF this n(2) c] show ?thesis using le by simp
    qed
  next
    fix n k assume n: "length t \<le> n" "n < length t4" and k: "k < length (children (t4 ! n))"
    let ?c = "children (t4 ! n) ! k"
    show "parent (t4 ! ?c) = Some n \<and> index (t4 ! ?c) = k"
    proof (cases "n < length t1")
      case True
      then have k1: "k < length (children (t1 ! n))" and ceq: "?c = children (t1 ! n) ! k"
        using k c4 by simp_all
      from F1(2) [OF n(1) True k1]
      have a: "parent (t1 ! ?c) = Some n" "index (t1 ! ?c) = k" unfolding ceq by simp_all
      have "?c \<in> set (children (t1 ! n))" unfolding ceq using k1 by (rule nth_mem)
      from F1(1) [OF n(1) True this] have cl: "?c < length t1" by simp
      have "?c \<noteq> x" using a(1) px by auto
      then show ?thesis using a p4 [OF cl] i4 [OF cl] by simp
    next
      case False
      then have "length t1 \<le> n" by simp
      from F4(2) [OF this n(2) k] show ?thesis .
    qed
  next
    fix n assume n: "length t \<le> n" "n < length t4" and nr: "n \<notin> set (x # ys)"
    show "\<exists>p. parent (t4 ! n) = Some p \<and> length t \<le> p \<and> p < length t4 \<and>
            index (t4 ! n) < length (children (t4 ! p)) \<and> children (t4 ! p) ! index (t4 ! n) = n"
    proof (cases "n < length t1")
      case True
      have "n \<notin> set [x]" using nr by simp
      from F1(3) [OF n(1) True this] obtain p where
        p: "parent (t1 ! n) = Some p" "length t \<le> p" "p < length t1"
          "index (t1 ! n) < length (children (t1 ! p))" "children (t1 ! p) ! index (t1 ! n) = n"
        by blast
      have "n \<noteq> x" using nr by simp
      then have "parent (t4 ! n) = Some p" "index (t4 ! n) = index (t1 ! n)"
        using p4 [OF True] i4 [OF True] p(1) by simp_all
      then show ?thesis using p c4 [OF p(3)] le by auto
    next
      case False
      then have lo: "length t1 \<le> n" by simp
      have "n \<notin> set ys" using nr by simp
      from F4(3) [OF lo n(2) this] show ?thesis using le by auto
    qed
  next
    show "distinct (x # ys)" using F4(4) ys_lo [of x] x by auto
  next
    fix r assume "r \<in> set (x # ys)"
    then have "r = x \<or> (length t1 \<le> r \<and> r < length t4)" using ys_lo [of r] by auto
    then show "length t \<le> r \<and> r < length t4" using x le by auto
  next
    fix k assume k: "k < length (x # ys)"
    show "parent (t4 ! ((x # ys) ! k)) = Some node \<and> index (t4 ! ((x # ys) ! k)) = i + k"
    proof (cases k)
      case 0
      then show ?thesis using p4 [OF x(2)] i4 [OF x(2)] by simp
    next
      case (Suc j)
      then have "j < length ys" using k by simp
      from F4(6) [OF this] show ?thesis using Suc by simp
    qed
  qed
qed

lemma fresh_close:
  assumes e2: "extends (t @ [N]) t2" and N: "parent N = None" "index N = 0"
    and f2: "fresh (Suc (length t)) t2 rs (Some (length t)) 0"
  shows "extends t (t2[length t := (t2 ! length t)\<lparr>children := rs\<rparr>]) \<and>
    length t < length t2 \<and>
    fresh (length t) (t2[length t := (t2 ! length t)\<lparr>children := rs\<rparr>]) [length t] None 0"
proof (intro conjI)
  let ?r = "length t"
  let ?t3 = "t2[?r := (t2 ! ?r)\<lparr>children := rs\<rparr>]"
  have len: "Suc ?r \<le> length t2" using e2 by (auto dest: extends_length)
  then show rl: "?r < length t2" by simp
  have old2: "t2 ! n = (t @ [N]) ! n" if "n \<le> ?r" for n
  proof -
    from that have "n < length (t @ [N])" by simp
    with e2 show ?thesis by (rule extends_nth)
  qed
  have r2: "t2 ! ?r = N" using old2 [of ?r] by simp
  show "extends t ?t3"
    unfolding extends_def using len old2 by (auto simp: nth_list_update_gen nth_append)
  note F2 = freshD [OF f2]
  have rs_lo: "\<And>c. c \<in> set rs \<Longrightarrow> Suc ?r \<le> c \<and> c < length t2" by (rule F2(5))
  have other: "\<And>n. n \<noteq> ?r \<Longrightarrow> ?t3 ! n = t2 ! n" by simp
  have c3: "children (?t3 ! ?r) = rs" using rl by simp
  have "parent (t2 ! ?r) = None" "index (t2 ! ?r) = 0" using r2 N by simp_all
  then have pi3: "parent (?t3 ! ?r) = None" "index (?t3 ! ?r) = 0" by simp_all
  show "fresh ?r ?t3 [?r] None 0"
  proof (rule freshI)
    fix n c assume n: "?r \<le> n" "n < length ?t3" and c: "c \<in> set (children (?t3 ! n))"
    show "?r \<le> c \<and> c < length ?t3"
    proof (cases "n = ?r")
      case True
      then show ?thesis using c c3 rs_lo [of c] by simp
    next
      case False
      then have "Suc ?r \<le> n" "n < length t2" "c \<in> set (children (t2 ! n))" using n c other by simp_all
      from F2(1) [OF this] show ?thesis by simp
    qed
  next
    fix n k assume n: "?r \<le> n" "n < length ?t3" and k: "k < length (children (?t3 ! n))"
    let ?c = "children (?t3 ! n) ! k"
    show "parent (?t3 ! ?c) = Some n \<and> index (?t3 ! ?c) = k"
    proof (cases "n = ?r")
      case True
      then have kr: "k < length rs" and ceq: "?c = rs ! k" using k c3 by simp_all
      have "rs ! k \<noteq> ?r" using rs_lo [of "rs ! k"] kr by auto
      then have "?t3 ! (rs ! k) = t2 ! (rs ! k)" by (rule other)
      then show ?thesis unfolding ceq using F2(6) [OF kr] True by simp
    next
      case False
      then have a: "Suc ?r \<le> n" "n < length t2" "k < length (children (t2 ! n))"
        and ceq: "?c = children (t2 ! n) ! k" using n k other by simp_all
      have "children (t2 ! n) ! k \<in> set (children (t2 ! n))" using a(3) by (rule nth_mem)
      from F2(1) [OF a(1,2) this] have "children (t2 ! n) ! k \<noteq> ?r" by simp
      then have "?t3 ! (children (t2 ! n) ! k) = t2 ! (children (t2 ! n) ! k)" by (rule other)
      then show ?thesis unfolding ceq using F2(2) [OF a] by simp
    qed
  next
    fix n assume n: "?r \<le> n" "n < length ?t3" and nr: "n \<notin> set [?r]"
    then have a: "Suc ?r \<le> n" "n < length t2" by simp_all
    have nn: "?t3 ! n = t2 ! n" using nr other by simp
    show "\<exists>p. parent (?t3 ! n) = Some p \<and> ?r \<le> p \<and> p < length ?t3 \<and>
            index (?t3 ! n) < length (children (?t3 ! p)) \<and> children (?t3 ! p) ! index (?t3 ! n) = n"
    proof (cases "n \<in> set rs")
      case True
      then obtain k where k: "k < length rs" "rs ! k = n" by (auto simp: in_set_conv_nth)
      from F2(6) [OF k(1)] have "parent (t2 ! n) = Some ?r" "index (t2 ! n) = k" using k(2) by simp_all
      then show ?thesis using nn c3 k rl by auto
    next
      case False
      from F2(3) [OF a False] obtain p where
        p: "parent (t2 ! n) = Some p" "Suc ?r \<le> p" "p < length t2"
          "index (t2 ! n) < length (children (t2 ! p))" "children (t2 ! p) ! index (t2 ! n) = n"
        by blast
      have "?t3 ! p = t2 ! p" using p(2) other by simp
      then show ?thesis using p nn by auto
    qed
  next
    show "distinct [?r]" by simp
  next
    fix r assume "r \<in> set [?r]"
    then show "?r \<le> r \<and> r < length ?t3" using rl by simp
  next
    fix k assume "k < length [?r]"
    then show "parent (?t3 ! ([?r] ! k)) = None \<and> index (?t3 ! ([?r] ! k)) = 0 + k"
      using pi3 by simp
  qed
qed


lemma fresh_empty: "fresh (length t) t [] par i"
  by (rule freshI) simp_all

lemma mapAsync_children_fresh:
  assumes P: "\<And>a par t r t'. mapAsync n cb h a par t = Some (r, t') \<Longrightarrow>
      extends t t' \<and> r = length t \<and> r < length t' \<and> fresh (length t) t' [r] None 0"
  shows "mapAsync_children n cb h node cs i t = Some (rs, t') \<Longrightarrow>
    extends t t' \<and> length rs = length cs \<and> fresh (length t) t' rs (Some node) i"
proof (induction cs arbitrary: i t rs t')
  case Nil
  then show ?case by (simp add: fresh_empty)
next
  case (Cons c cs)
  from Cons.prems obtain x t1 where x: "mapAsync n cb h c (Some node) t = Some (x, t1)"
    by (auto split: option.splits)
  from Cons.prems x obtain ys t4 where
    y: "mapAsync_children n cb h node cs (Suc i) (attach x node i t1) = Some (ys, t4)"
    and r: "rs = x # ys" "t' = t4"
    by (auto simp: Let_def attach_def split: option.splits)
  from P [OF x] have p: "extends t t1" "x = length t" "x < length t1" "fresh (length t) t1 [x] None 0"
    by blast+
  from Cons.IH [OF y] have q: "extends (attach x node i t1) t4" "length ys = length cs"
    "fresh (length t1) t4 ys (Some node) (Suc i)" by (simp_all del: attach_fields(2-5))
  from fresh_step [OF p q(1,3)] show ?case using r q(2) by simp
qed

lemma mapAsync_fresh:
  "mapAsync n cb h a par t = Some (r, t') \<Longrightarrow>
   extends t t' \<and> r = length t \<and> r < length t' \<and> fresh (length t) t' [r] None 0"
proof (induction n arbitrary: a par t r t')
  case 0
  then show ?case by simp
next
  case (Suc n)
  let ?N = "\<lparr>model = cb h a t par, parent = None, children = [], index = 0\<rparr>"
  from Suc.prems obtain rs t2 where
    c: "mapAsync_children n cb h (length t) (children (h ! a)) 0 (t @ [?N]) = Some (rs, t2)"
    and r: "r = length t" "t' = t2[length t := (t2 ! length t)\<lparr>children := rs\<rparr>]"
    by (auto simp: new_TreeNode_def split: option.splits)
  from mapAsync_children_fresh [OF Suc.IH c]
  have q: "extends (t @ [?N]) t2" "fresh (Suc (length t)) t2 rs (Some (length t)) 0" by simp_all
  from fresh_close [OF q(1) _ _ q(2)] show ?case using r by simp
qed







lemma mapAsync_wf: "wf t \<Longrightarrow> mapAsync n cb h a par t = Some (r, t') \<Longrightarrow> wf t'"
  using mapAsync_fresh [of n cb h a par t r t'] wf_fresh [of t t' r] by blast






lemma fresh_single:
  "fresh (length h) (h @ [\<lparr>model = m, parent = None, children = [], index = 0\<rparr>]) [length h] None 0"
proof (rule freshI)
  let ?N = "\<lparr>model = m, parent = None, children = [], index = 0\<rparr>"
  have only: "n = length h" if "length h \<le> n" "n < length (h @ [?N])" for n
    using that by simp
  have N: "(h @ [?N]) ! length h = ?N" by simp
  show "length h \<le> c \<and> c < length (h @ [?N])"
    if "length h \<le> n" "n < length (h @ [?N])" "c \<in> set (children ((h @ [?N]) ! n))" for n c
    using that(3) unfolding only [OF that(1,2)] N by simp
  show "parent ((h @ [?N]) ! (children ((h @ [?N]) ! n) ! k)) = Some n \<and>
      index ((h @ [?N]) ! (children ((h @ [?N]) ! n) ! k)) = k"
    if "length h \<le> n" "n < length (h @ [?N])" "k < length (children ((h @ [?N]) ! n))" for n k
    using that(3) unfolding only [OF that(1,2)] N by simp
  show "\<exists>p. parent ((h @ [?N]) ! n) = Some p \<and> length h \<le> p \<and> p < length (h @ [?N]) \<and>
      index ((h @ [?N]) ! n) < length (children ((h @ [?N]) ! p)) \<and>
      children ((h @ [?N]) ! p) ! index ((h @ [?N]) ! n) = n"
    if "length h \<le> n" "n < length (h @ [?N])" "n \<notin> set [length h]" for n
    using that(3) only [OF that(1,2)] by simp
  show "distinct [length h]" by simp
  show "length h \<le> r \<and> r < length (h @ [?N])" if "r \<in> set [length h]" for r
    using that by simp
  show "parent ((h @ [?N]) ! ([length h] ! k)) = None \<and> index ((h @ [?N]) ! ([length h] ! k)) = 0 + k"
    if "k < length [length h]" for k
    using that N by simp
qed

lemma new_TreeNode_wf: "wf h \<Longrightarrow> wf (snd (new_TreeNode m h))"
  unfolding new_TreeNode_def snd_conv
  by (rule wf_fresh [of h _ "length h"]) (simp_all add: fresh_single)




lemma toObject_extends:
  "refs_ok h \<Longrightarrow> a < length h \<Longrightarrow> extends h t \<Longrightarrow> toObject n t a = toObject n h a"
proof (induction n arbitrary: a)
  case 0
  then show ?case by simp
next
  case (Suc n)
  have e: "t ! a = h ! a" using Suc.prems(3,2) by (rule extends_nth)
  have M: "map (toObject n t) (children (h ! a)) = map (toObject n h) (children (h ! a))"
  proof (rule map_cong [OF refl])
    fix c assume "c \<in> set (children (h ! a))"
    with Suc.prems(1,2) have "c < length h" by (rule refs_child)
    with Suc.prems(1) show "toObject n t c = toObject n h c" using Suc.prems(3) by (rule Suc.IH)
  qed
  show ?case unfolding toObject.simps e M ..
qed





lemma fresh_root_parent: "fresh lo t [r] None 0 \<Longrightarrow> parent (t ! r) = None"
  using freshD(6) [of lo t "[r]" None 0 0] by simp





section \<open>The tree built by mapAsync\<close>

lemma those_map_cong:
  "(\<And>x. x \<in> set xs \<Longrightarrow> f x = g x) \<Longrightarrow> those (map f xs) = those (map g xs)"
  by (induction xs) (auto split: option.splits)

lemma toObject_region:
  assumes rc: "region_children lo t"
    and ag: "\<And>n. lo \<le> n \<Longrightarrow> n < length t \<Longrightarrow>
        model (t' ! n) = model (t ! n) \<and> children (t' ! n) = children (t ! n)"
  shows "lo \<le> a \<Longrightarrow> a < length t \<Longrightarrow> toObject k t' a = toObject k t a"
proof (induction k arbitrary: a)
  case 0
  then show ?case by simp
next
  case (Suc k)
  from ag [OF Suc.prems] have e: "model (t' ! a) = model (t ! a)" "children (t' ! a) = children (t ! a)"
    by simp_all
  have "those (map (toObject k t') (children (t ! a))) = those (map (toObject k t) (children (t ! a)))"
  proof (rule those_map_cong)
    fix c assume c: "c \<in> set (children (t ! a))"
    from rc Suc.prems c have "lo \<le> c \<and> c < length t" unfolding region_children_def by blast
    then show "toObject k t' c = toObject k t c" using Suc.IH by blast
  qed
  then show ?case by (simp add: e)
qed

lemma node_tree_toObject:
  "node_tree n h a = Some T \<Longrightarrow> toObject n h a = Some (map_IParseable (\<lambda>x. model (h ! x)) T)"
proof (induction n arbitrary: a T)
  case 0
  then show ?case by simp
next
  case (Suc n)
  have L: "those (map (node_tree n h) cs) = Some Ts \<Longrightarrow>
      those (map (toObject n h) cs) = Some (map (map_IParseable (\<lambda>x. model (h ! x))) Ts)" for cs Ts
  proof (induction cs arbitrary: Ts)
    case Nil
    then show ?case by simp
  next
    case (Cons c cs)
    then show ?case using Suc.IH by (auto split: option.splits)
  qed
  from Suc.prems obtain Ts where "those (map (node_tree n h) (children (h ! a))) = Some Ts"
    "T = Parseable a Ts" by auto
  then show ?case using L by simp
qed

lemma mapAsync_tree_shape:
  "map_IParseable (\<lambda>x. ()) (mapAsync_tree g h T par) = map_IParseable (\<lambda>x. ()) T"
proof (induction T arbitrary: par)
  case (Parseable n cs)
  then show ?case by simp
qed

lemma fresh_region_children: "fresh lo t roots par i0 \<Longrightarrow> region_children lo t"
  by (simp add: fresh_def)

lemma mapAsync_children_region:
  assumes a: "mapAsync_children n cb h node cs i t = Some (rs, t')"
  shows "extends t t' \<and> length rs = length cs \<and> fresh (length t) t' rs (Some node) i"
  by (rule mapAsync_children_fresh [OF _ a]) (rule mapAsync_fresh)

lemma mapAsync_children_tree:
  fixes g :: "'a heap \<Rightarrow> nat \<Rightarrow> 'u node option \<Rightarrow> 'u" and t :: "'u heap"
  assumes P: "\<And>a T par (t :: 'u heap). node_tree n h a = Some T \<Longrightarrow>
      \<exists>r t'. mapAsync n (node_callback g) h a par t = Some (r, t') \<and>
        toObject n t' r = Some (mapAsync_tree g h T (map_option (\<lambda>p. t ! p) par))"
  shows "those (map (node_tree n h) cs) = Some Ts \<Longrightarrow> node < length t \<Longrightarrow>
    \<exists>rs t'. mapAsync_children n (node_callback g) h node cs i t = Some (rs, t') \<and>
      those (map (toObject n t') rs) = Some (map (\<lambda>c. mapAsync_tree g h c (Some (t ! node))) Ts)"
proof (induction cs arbitrary: i t Ts)
  case Nil
  then show ?case by simp
next
  case (Cons c cs)
  from Cons.prems(1) obtain Tc Ts' where
    tc: "node_tree n h c = Some Tc" and ts: "those (map (node_tree n h) cs) = Some Ts'"
    and T: "Ts = Tc # Ts'"
    by (auto split: option.splits)
  from P [OF tc, of "Some node" t] obtain x t1 where
    x: "mapAsync n (node_callback g) h c (Some node) t = Some (x, t1)"
    and ox: "toObject n t1 x = Some (mapAsync_tree g h Tc (Some (t ! node)))"
    by auto
  from mapAsync_fresh [OF x] have p: "extends t t1" "x = length t" "x < length t1"
    "fresh (length t) t1 [x] None 0" by blast+
  let ?t3 = "attach x node i t1"
  have n3: "node < length ?t3" using Cons.prems(2) extends_length [OF p(1)] by simp
  have e3: "?t3 ! node = t ! node"
    using Cons.prems(2) p(2) extends_nth [OF p(1) Cons.prems(2)] by (simp add: attach_nth_other)
  from Cons.IH [OF ts n3, of "Suc i"] obtain ys t4 where
    y: "mapAsync_children n (node_callback g) h node cs (Suc i) ?t3 = Some (ys, t4)"
    and oy: "those (map (toObject n t4) ys) = Some (map (\<lambda>c. mapAsync_tree g h c (Some (t ! node))) Ts')"
    unfolding e3 by blast
  from mapAsync_children_region [OF y] have e4: "extends ?t3 t4" by blast
  have "toObject n t4 x = toObject n t1 x"
  proof (rule toObject_region [OF fresh_region_children [OF p(4)]])
    fix m assume m: "length t \<le> m" "m < length t1"
    then have "t4 ! m = ?t3 ! m" using extends_nth [OF e4, of m] by simp
    then show "model (t4 ! m) = model (t1 ! m) \<and> children (t4 ! m) = children (t1 ! m)" by simp
  next
    show "length t \<le> x" using p(2) by simp
    show "x < length t1" by (rule p(3))
  qed
  with ox have o4: "toObject n t4 x = Some (mapAsync_tree g h Tc (Some (t ! node)))" by simp
  have "mapAsync_children n (node_callback g) h node (c # cs) i t = Some (x # ys, t4)"
    using x y by (simp add: Let_def attach_def)
  then show ?case using o4 oy T by simp
qed

lemma mapAsync_tree_result:
  fixes g :: "'a heap \<Rightarrow> nat \<Rightarrow> 'u node option \<Rightarrow> 'u" and t :: "'u heap"
  shows "node_tree n h a = Some T \<Longrightarrow>
    \<exists>r t'. mapAsync n (node_callback g) h a par t = Some (r, t') \<and>
      toObject n t' r = Some (mapAsync_tree g h T (map_option (\<lambda>p. t ! p) par))"
proof (induction n arbitrary: a T par t)
  case 0
  then show ?case by simp
next
  case (Suc n)
  from Suc.prems obtain Ts where
    ts: "those (map (node_tree n h) (children (h ! a))) = Some Ts" and T: "T = Parseable a Ts"
    by auto
  let ?m = "g h a (map_option (\<lambda>p. t ! p) par)"
  let ?N = "new_node ?m"
  let ?t1 = "t @ [?N]"
  have n1: "length t < length ?t1" by simp
  from mapAsync_children_tree [where g = g and n = n and h = h, OF Suc.IH ts n1, of 0] obtain rs t2 where
    c: "mapAsync_children n (node_callback g) h (length t) (children (h ! a)) 0 ?t1 = Some (rs, t2)"
    and o: "those (map (toObject n t2) rs) = Some (map (\<lambda>c. mapAsync_tree g h c (Some ?N)) Ts)"
    by auto
  from mapAsync_children_region [OF c]
  have q: "extends ?t1 t2" "fresh (Suc (length t)) t2 rs (Some (length t)) 0" by simp_all
  let ?t' = "t2[length t := (t2 ! length t)\<lparr>children := rs\<rparr>]"
  have l2: "length t < length t2" using extends_length [OF q(1)] by simp
  have N2: "t2 ! length t = ?N" using extends_nth [OF q(1), of "length t"] by simp
  have r: "mapAsync (Suc n) (node_callback g) h a par t = Some (length t, ?t')"
    using c by (simp add: new_TreeNode_def node_callback_def new_node_def)
  have "those (map (toObject n ?t') rs) = those (map (toObject n t2) rs)"
  proof (rule those_map_cong)
    fix x assume "x \<in> set rs"
    with freshD(5) [OF q(2)] have x: "Suc (length t) \<le> x" "x < length t2" by blast+
    show "toObject n ?t' x = toObject n t2 x"
      by (rule toObject_region [OF fresh_region_children [OF q(2)] _ x]) simp
  qed
  with o have "toObject (Suc n) ?t' (length t) =
      Some (Parseable ?m (map (\<lambda>c. mapAsync_tree g h c (Some ?N)) Ts))"
    using l2 N2 by (simp add: new_node_def)
  then show ?case using r T by simp
qed

lemma suffix_callback_eq: "suffix_callback = node_callback suffix_of"
  by (rule ext)+ (simp add: suffix_callback_def node_callback_def suffix_of_def split: option.splits)

lemma fixture_nodes_eq: "node_tree 3 fixture_store 0 = Some fixture_nodes"
  unfolding fixture_store_eq fixture_nodes_def by (simp add: numeral_3_eq_3)

lemma wf_empty: "wf []"
  by (simp add: wf_def refs_ok_def index_invariant_def children_owned_def)

section \<open>Claims\<close>

text \<open>
  C2. The claim: for \<open>k < 0\<close> or \<open>k > children.length\<close>, \<open>add(child, k)\<close> fails with
  a range error before any mutation, and no node, the child included, is changed. The
  code does throw, but after \<open>child.parent = this\<close>: in the state of the test suite,
  \<open>node.add(b, 100)\<close> throws and leaves \<open>b.parent === node\<close>, where \<open>b.parent\<close> was
  \<open>null\<close> before the call. The store after the call differs from the store before it.
\<close>

theorem add_out_of_range_writes_parent:
  "fst (add 0 2 (Some 100) bounds_store) = Inl RangeError \<and>
   parent (bounds_store ! 2) = None \<and>
   parent (snd (add 0 2 (Some 100) bounds_store) ! 2) = Some 0 \<and>
   snd (add 0 2 (Some 100) bounds_store) \<noteq> bounds_store"
  by (simp add: bounds_store_eq add_def)



text \<open>
  C10. When \<open>child\<close> is an entry of \<open>p1\<close>'s array and \<open>p2.add(child)\<close> succeeds,
  \<open>child\<close> is still an entry of \<open>p1\<close>'s array and \<open>child.parent\<close> is \<open>p2\<close>: the
  store is no longer a forest in which every array entry has the array's node as parent
  and its position as index. Calling \<open>drop()\<close> on the child first, in a consistent
  store, makes the same \<open>add\<close> end in a consistent store.
\<close>

theorem add_does_not_detach:
  assumes "p1 < length h" "p2 < length h" "child < length h"
    and "child \<in> set (children (h ! p1))"
    and "add p2 child k h = (Inr c, h')"
  shows "child \<in> set (children (h' ! p1)) \<and> parent (h' ! child) = Some p2 \<and> \<not> children_owned h'
    \<and> (wf h \<longrightarrow> (\<forall>c2 h2. add p2 child k (snd (drop_node child h)) = (Inr c2, h2) \<longrightarrow> wf h2))"
proof -
  have ok: "fst (add p2 child k h) = Inr c" and h': "h' = snd (add p2 child k h)"
    using assms(5) by simp_all
  have len: "length h' = length h" unfolding h' by (rule add_length)
  have par: "parent (h' ! child) = Some p2" unfolding h' using assms(3) by (simp add: add_parent)
  from add_children_this [OF assms(2) ok] obtain j where
    j: "children (h' ! p2) = take j (children (h ! p2)) @ [child] @ drop j (children (h ! p2))"
    unfolding h' by blast
  have set2: "set (children (h' ! p2)) = insert child (set (children (h ! p2)))"
  proof -
    have "set (take j (children (h ! p2))) \<union> set (drop j (children (h ! p2))) = set (children (h ! p2))"
      by (metis append_take_drop_id set_append)
    then show ?thesis unfolding j by auto
  qed
  have mem: "child \<in> set (children (h' ! p1))"
  proof (cases "p1 = p2")
    case True
    then show ?thesis using set2 by simp
  next
    case False
    then show ?thesis unfolding h' using add_children_other [OF assms(2) ok False] assms(4) by simp
  qed
  have no: "\<not> children_owned h'"
  proof
    assume own: "children_owned h'"
    show False
    proof (cases "p1 = p2")
      case False
      have "parent (h' ! child) = Some p1" using own mem assms(1) len by (auto intro: owned_parent)
      with par False show False by simp
    next
      case True
      have "distinct (children (h' ! p2))" using own assms(2) len by (auto intro: owned_distinct)
      then have "child \<notin> set (take j (children (h ! p2)))" "child \<notin> set (drop j (children (h ! p2)))"
        unfolding j by auto
      moreover have "set (take j (children (h ! p2))) \<union> set (drop j (children (h ! p2))) = set (children (h ! p2))"
        by (metis append_take_drop_id set_append)
      ultimately show False using assms(4) True by blast
    qed
  qed
  have safe: "wf h2" if w: "wf h" and a: "add p2 child k (snd (drop_node child h)) = (Inr c2, h2)" for c2 h2
  proof -
    let ?d = "snd (drop_node child h)"
    have wd: "wf ?d" using w assms(3) by (rule drop_node_wf)
    have ld: "length ?d = length h" by (rule drop_node_length)
    have "parent (h ! child) = Some p1" using w assms(1,4) by (auto simp: wf_def intro: owned_parent)
    then have det: "parent (?d ! child) = None" using assms(3) by (simp add: drop_node_parent)
    have "fst (add p2 child k ?d) = Inr c2" "h2 = snd (add p2 child k ?d)" using a by simp_all
    then show ?thesis using add_detached_wf [OF wd _ _ det, of p2 k c2] assms(2,3) ld by simp
  qed
  show ?thesis using mem par no safe by blast
qed

theorem add_does_not_detach_witness:
  "1 \<in> set (children (bounds_store ! 0)) \<and>
   add 2 1 None bounds_store = (Inr 1, snd (add 2 1 None bounds_store)) \<and>
   1 \<in> set (children (snd (add 2 1 None bounds_store) ! 0)) \<and>
   parent (snd (add 2 1 None bounds_store) ! 1) = Some 2 \<and>
   \<not> children_owned (snd (add 2 1 None bounds_store)) \<and>
   wf bounds_store \<and>
   wf (snd (add 2 1 None (snd (drop_node 1 bounds_store))))"
proof -
  have l: "0 < length bounds_store" "2 < length bounds_store" "1 < length bounds_store"
    by (simp_all add: bounds_store_eq)
  have m: "1 \<in> set (children (bounds_store ! 0))" by (simp add: bounds_store_eq)
  have a: "add 2 1 None bounds_store = (Inr 1, snd (add 2 1 None bounds_store))"
    by (simp add: add_def)
  have b: "add 2 1 None (snd (drop_node 1 bounds_store)) =
      (Inr 1, snd (add 2 1 None (snd (drop_node 1 bounds_store))))"
    by (simp add: add_def)
  from add_does_not_detach [OF l m a] bounds_wf b
  show ?thesis using m a by blast
qed

text \<open>
  C4. \<open>pathKey\<close> is the run-length encoding of \<open>indices\<close> as the specification
  words it (\<open>run_length_key\<close>), whenever \<open>indices\<close> has a value; no indices give
  the empty string; and the indices \<open>[0,0,0,1,0,0]\<close> give the tokens \<open>3, -1, 2\<close> and
  the key \<open>"3,-1,2"\<close>.
\<close>

theorem pathKey_is_run_length_encoding:
  "pathKey h n = map_option run_length_key (indices h n) \<and>
   pathKey_of [] = [] \<and>
   run_length_tokens [0, 0, 0, 1, 0, 0] = [3, - 1, 2] \<and>
   pathKey_of [0, 0, 0, 1, 0, 0] = ''3,-1,2''"
proof -
  have "pathKey h n = map_option run_length_key (indices h n)"
    unfolding pathKey_def using pathKey_of_eq by (metis (no_types) option.map_cong)
  moreover have "pathKey_of [] = []" by (simp add: pathKey_of_def)
  moreover have "run_length_tokens [0, 0, 0, 1, 0, 0] = [3, - 1, 2]" by code_simp
  moreover have "pathKey_of [0, 0, 0, 1, 0, 0] = ''3,-1,2''" by code_simp
  ultimately show ?thesis by blast
qed



text \<open>
  C5. On the tree of the test suite, \<open>flatten\<close> lists the models in the orders
  1, 11, 12, 111, 112 (breadth-first), 1, 11, 111, 112, 12 (pre-order) and
  111, 112, 11, 12, 1 (post-order), with any fuel from 6 (breadth-first: one unit for each
  turn of the loop) or 3 (the depth of the recursion) on.
\<close>

theorem fixture_traversal_orders:
  "map_option (map (\<lambda>n. model (fixture_store ! n))) (flatten (6 + k) fixture_store Breadth 0) =
     Some [''1'', ''11'', ''12'', ''111'', ''112''] \<and>
   map_option (map (\<lambda>n. model (fixture_store ! n))) (flatten (3 + k) fixture_store Pre 0) =
     Some [''1'', ''11'', ''111'', ''112'', ''12''] \<and>
   map_option (map (\<lambda>n. model (fixture_store ! n))) (flatten (3 + k) fixture_store Post 0) =
     Some [''111'', ''112'', ''11'', ''12'', ''1'']"
proof -
  have b: "flatten 6 fixture_store Breadth 0 = Some [0, 1, 4, 2, 3]"
    unfolding fixture_store_eq by code_simp
  have p: "flatten 3 fixture_store Pre 0 = Some [0, 1, 2, 3, 4]"
    unfolding fixture_store_eq by code_simp
  have q: "flatten 3 fixture_store Post 0 = Some [2, 3, 1, 4, 0]"
    unfolding fixture_store_eq by code_simp
  show ?thesis
    using flatten_fuel_mono [OF b, of k] flatten_fuel_mono [OF p, of k] flatten_fuel_mono [OF q, of k]
    by (simp add: fixture_store_eq)
qed

text \<open>
  C9. The root \<open>r\<close> with the single child \<open>c\<close> that has the leaves \<open>x\<close> and
  \<open>y\<close> is encoded as \<open>[r, c, [x, y]]\<close>, and that array is decoded as a root with two
  children: the leaf \<open>c\<close> and the chain \<open>x \<rightarrow> y\<close>. The decoded tree is not the
  encoded one, with payloads that are plain strings.
\<close>

theorem nested_array_round_trip_fails:
  "toObject (3 + k) nested_store 0 = Some nested_tree \<and>
   toNestedArray (3 + k) nested_store 0 = Some nested_encoding \<and>
   fromNestedArray nested_encoding [] = Some (0, nested_decoded) \<and>
   toObject (3 + k) nested_decoded 0 =
     Some (Parseable ''r'' [Parseable ''c'' [], Parseable ''x'' [Parseable ''y'' []]]) \<and>
   toObject (3 + k) nested_decoded 0 \<noteq> toObject (3 + k) nested_store 0"
proof -
  have a: "toObject 3 nested_store 0 = Some nested_tree"
    unfolding nested_store_eq nested_tree_def by code_simp
  have b: "toNestedArray 3 nested_store 0 = Some nested_encoding"
    unfolding nested_store_eq nested_encoding_def by code_simp
  have c: "fromNestedArray nested_encoding [] = Some (0, nested_decoded)"
    unfolding nested_encoding_def nested_decoded_def by code_simp
  have d: "toObject 3 nested_decoded 0 =
      Some (Parseable ''r'' [Parseable ''c'' [], Parseable ''x'' [Parseable ''y'' []]])"
    unfolding nested_decoded_def by code_simp
  show ?thesis
    using toObject_fuel_mono [OF a, of k] toNestedArray_fuel_mono [OF b, of k] c
      toObject_fuel_mono [OF d, of k]
    by (simp add: nested_tree_def)
qed




text \<open>
  C6. \<open>mapAsync\<close> on a node whose descendants form a tree \<open>T\<close> of nodes returns the
  root of a new tree, built beside the nodes that exist, none of which is changed. The
  new tree has the shape of \<open>T\<close>; the payload of its node for the original node
  \<open>n\<close> is the value of the callback on \<open>n\<close> and on the new parent node, already
  made with its own payload (on \<open>undefined\<close>, or the \<open>parent\<close> argument, for the
  top node); the new root has no parent, and the new nodes are linked consistently. On
  the fixture \<open>1 \<rightarrow> {11 \<rightarrow> {111, 112}, 12}\<close> with the callback
  \<open>node.model + "-" + (parent?.model || "null")\<close> the payloads of the new tree in
  breadth-first order are \<open>1-null\<close>, \<open>11-1-null\<close>, \<open>12-1-null\<close>,
  \<open>111-11-1-null\<close>, \<open>112-11-1-null\<close>.
\<close>

theorem mapAsync_rebuilds_isomorphic_tree:
  "(node_tree fuel h a = Some T \<longrightarrow>
      toObject fuel h a = Some (map_IParseable (\<lambda>n. model (h ! n)) T) \<and>
      map_IParseable (\<lambda>n. ()) (mapAsync_tree g h T (map_option (\<lambda>p. t ! p) par)) =
        map_IParseable (\<lambda>n. ()) T \<and>
      (\<exists>r t'. mapAsync fuel (node_callback g) h a par t = Some (r, t') \<and>
         toObject fuel t' r = Some (mapAsync_tree g h T (map_option (\<lambda>p. t ! p) par)) \<and>
         r = length t \<and> (\<forall>m<length t. t' ! m = t ! m) \<and> parent (t' ! r) = None \<and>
         (wf t \<longrightarrow> wf t'))) \<and>
   suffix_callback = node_callback suffix_of \<and>
   mapAsync (3 + k) suffix_callback fixture_store 0 None [] = Some (0, mapped_store) \<and>
   map_option (map (\<lambda>n. model (mapped_store ! n))) (flatten (6 + j) mapped_store Breadth 0) =
     Some [''1-null'', ''11-1-null'', ''12-1-null'', ''111-11-1-null'', ''112-11-1-null'']"
proof (intro conjI impI)
  assume T: "node_tree fuel h a = Some T"
  show "toObject fuel h a = Some (map_IParseable (\<lambda>n. model (h ! n)) T)"
    using T by (rule node_tree_toObject)
  show "map_IParseable (\<lambda>n. ()) (mapAsync_tree g h T (map_option (\<lambda>p. t ! p) par)) =
      map_IParseable (\<lambda>n. ()) T"
    by (rule mapAsync_tree_shape)
  from mapAsync_tree_result [OF T, of g par t] obtain r t' where
    r: "mapAsync fuel (node_callback g) h a par t = Some (r, t')"
    and o: "toObject fuel t' r = Some (mapAsync_tree g h T (map_option (\<lambda>p. t ! p) par))"
    by blast
  from mapAsync_fresh [OF r] have f: "extends t t'" "r = length t" "fresh (length t) t' [r] None 0"
    by blast+
  have "\<forall>m<length t. t' ! m = t ! m" using f(1) by (simp add: extends_def)
  moreover have "parent (t' ! r) = None" using f(3) by (rule fresh_root_parent)
  moreover have "wf t \<longrightarrow> wf t'" using r by (blast intro: mapAsync_wf)
  ultimately show "\<exists>r t'. mapAsync fuel (node_callback g) h a par t = Some (r, t') \<and>
         toObject fuel t' r = Some (mapAsync_tree g h T (map_option (\<lambda>p. t ! p) par)) \<and>
         r = length t \<and> (\<forall>m<length t. t' ! m = t ! m) \<and> parent (t' ! r) = None \<and>
         (wf t \<longrightarrow> wf t')"
    using r o f(2) by blast
next
  show "suffix_callback = node_callback suffix_of" by (rule suffix_callback_eq)
next
  have m: "mapAsync 3 suffix_callback fixture_store 0 None [] = Some (0, mapped_store)"
    unfolding fixture_store_eq mapped_store_def
    by (simp add: numeral_3_eq_3 new_TreeNode_def suffix_callback_def)
  show "mapAsync (3 + k) suffix_callback fixture_store 0 None [] = Some (0, mapped_store)"
    using mapAsync_fuel_mono [OF m, of k] by simp
next
  have b: "flatten 6 mapped_store Breadth 0 = Some [0, 1, 4, 2, 3]"
    unfolding mapped_store_def by code_simp
  show "map_option (map (\<lambda>n. model (mapped_store ! n))) (flatten (6 + j) mapped_store Breadth 0) =
     Some [''1-null'', ''11-1-null'', ''12-1-null'', ''111-11-1-null'', ''112-11-1-null'']"
    using flatten_fuel_mono [OF b, of j] by (simp add: mapped_store_def)
qed

theorem mapAsync_rebuilds_isomorphic_tree_witness:
  "node_tree 3 fixture_store 0 = Some fixture_nodes \<and> wf ([] :: string heap) \<and>
   toObject 3 fixture_store 0 = Some fixture \<and>
   (\<exists>r t'. mapAsync 3 (node_callback suffix_of) fixture_store 0 None [] = Some (r, t') \<and>
      toObject 3 t' r =
        Some (Parseable ''1-null''
          [Parseable ''11-1-null'' [Parseable ''111-11-1-null'' [], Parseable ''112-11-1-null'' []],
           Parseable ''12-1-null'' []]) \<and>
      r = 0 \<and> parent (t' ! r) = None \<and> wf t')"
proof -
  note A = mapAsync_rebuilds_isomorphic_tree [where fuel = 3 and h = fixture_store and a = 0
      and T = fixture_nodes and g = suffix_of and t = "[]" and par = None and k = 0 and j = 0]
  have e: "mapAsync_tree suffix_of fixture_store fixture_nodes None =
      Parseable ''1-null''
          [Parseable ''11-1-null'' [Parseable ''111-11-1-null'' [], Parseable ''112-11-1-null'' []],
           Parseable ''12-1-null'' []]"
    unfolding fixture_store_eq fixture_nodes_def by (simp add: suffix_of_def new_node_def)
  have f: "map_IParseable (\<lambda>n. model (fixture_store ! n)) fixture_nodes = fixture"
    unfolding fixture_store_eq fixture_nodes_def fixture_def by simp
  from A fixture_nodes_eq wf_empty show ?thesis by (auto simp: e f)
qed

end
